theory Spec2Isabelle
  imports Complex_Main "HOL-Library.Word" "HOL-Library.Signed_Division" "HOL-Library.Multiset"
begin

unbundle bit_operations_syntax

section \<open>The chained hash table of sfcUtil/hashtable.c\<close>

text \<open>
  A shallow embedding of the hash-table engine, its sizing policy and its iterator, from
  \<open>src/sfcUtil/hashtable.c\<close>. The declarations of \<open>hashtable.h\<close> are not part of the
  sources at hand; the fields of the structures and their types are taken from the way
  the code uses them.

  \<^item> A \<open>void *\<close> is a 64-bit address, \<open>NULL\<close> is \<open>0\<close>. Keys and values are such
    addresses; the memory they point to is not changed by the table, so a comparison or
    hash function of the caller is a function of the addresses alone.
  \<^item> A chain of \<open>KeyValuePair\<close> nodes linked by \<open>next\<close> is the list of its nodes from
    the head; a pointer into a chain is the list of the nodes from that node on, and the
    null pointer is the empty list.
  \<^item> \<open>long\<close> and \<open>int\<close> counters are mathematical integers: they are taken to stay
    in the range of their C types (for the search of the sizing policy this is proved).
  \<^item> A \<open>float\<close> is single precision (IEEE 754 binary32), and an expression of type
    \<open>float\<close> is evaluated in that precision, as on x86-64 and AArch64. A finite
    \<open>float\<close> is the rational number it denotes; the conversion of a \<open>long\<close> to
    \<open>float\<close> and the division of two \<open>float\<close>s round to the nearest number of
    the format, ties to even. Infinities and NaNs are outside the model.
  \<^item> \<open>malloc\<close> may fail: every function that allocates takes the outcome of each of its
    allocations as a boolean argument.
  \<^item> A failed \<open>assert\<close> aborts the program: it is the error \<open>AssertionFailed\<close>.
    Reading through a null pointer is the error \<open>NullDereference\<close>, and a loop that
    never ends is the error \<open>NonTermination\<close>.
  \<^item> The calls of the caller's deallocation functions and the \<open>free\<close> of chain nodes
    are effects on the outside world; a function that makes such effects returns the
    list of them, in order. The \<open>free\<close> of a bucket array or of a cursor is not recorded.
\<close>

subsection \<open>Data\<close>

type_synonym ptr = "64 word"

type_synonym cfloat = rat

definition NULL :: ptr where
  "NULL = 0"

record KeyValuePair =
  key :: ptr
  val :: ptr

record HashTable =
  numOfBuckets :: int
  numOfElements :: int
  bucketArray :: "KeyValuePair list list"
  idealRatio :: cfloat
  lowerRehashThreshold :: cfloat
  upperRehashThreshold :: cfloat
  keycmp :: "ptr \<Rightarrow> ptr \<Rightarrow> int"
  valuecmp :: "ptr \<Rightarrow> ptr \<Rightarrow> int"
  hashFunction :: "ptr \<Rightarrow> 64 word"
  keyDeallocator :: ptr
  valueDeallocator :: ptr

datatype error = AssertionFailed | NonTermination | NullDereference

text \<open>An effect: a call of a deallocation function (its address, its argument), or the
  \<open>free\<close> of a chain node (given by its contents).\<close>

datatype effect = Call ptr ptr | FreePair KeyValuePair

subsection \<open>Single-precision arithmetic\<close>

text \<open>The number of binary digits of a positive integer, and with it the exponent of the
  leading binary digit of a positive rational: \<open>2 powi floor_log2 q \<le> q < 2 powi (floor_log2 q + 1)\<close>.\<close>

function bit_length :: "int \<Rightarrow> int" where
  "bit_length n = (if n \<le> 0 then 0 else bit_length (n div 2) + 1)"
  by pat_completeness auto
termination
  by (relation "measure nat") auto

declare bit_length.simps [simp del]

definition floor_log2 :: "rat \<Rightarrow> int" where
  "floor_log2 q =
     (let (a, b) = quotient_of q;
          d = bit_length a - bit_length b
      in if 2 powi d \<le> q then d else d - 1)"

text \<open>The integer nearest to a rational, the even one of the two when it lies halfway.\<close>

definition round_half_even :: "rat \<Rightarrow> int" where
  "round_half_even q =
     (let n = \<lfloor>q\<rfloor>; d = q - of_int n
      in if d < 1 / 2 then n
         else if 1 / 2 < d then n + 1
         else if even n then n else n + 1)"

text \<open>The rounding of a real result to \<open>float\<close>: a significand of 24 binary digits,
  so that the last place of a number with leading digit at \<open>2 powi l\<close> is at
  \<open>2 powi (l - 23)\<close>, and not below \<open>2 powi (- 149)\<close>, the last place of the subnormal
  numbers. A result beyond the largest \<open>float\<close>, which C rounds to an infinity, stays
  a number here; it is beyond the range of \<open>long\<close> as the infinity is.\<close>

definition float_round :: "rat \<Rightarrow> cfloat" where
  "float_round q =
     (if q = 0 then 0
      else let e = max (- 149) (floor_log2 \<bar>q\<bar> - 23)
           in of_int (round_half_even (q / 2 powi e)) * 2 powi e)"

text \<open>The conversion \<open>(float) n\<close> of a \<open>long\<close>, explicit or by the usual arithmetic
  conversions, and the division of two \<open>float\<close>s.\<close>

definition long_to_float :: "int \<Rightarrow> cfloat" where
  "long_to_float n = float_round (of_int n)"

definition float_div :: "cfloat \<Rightarrow> cfloat \<Rightarrow> cfloat" where
  "float_div x y = float_round (x / y)"

text \<open>The conversion of a \<open>float\<close> to \<open>long\<close> (in the initialisation of
  \<open>idealNumOfBuckets\<close>) truncates towards zero. When the truncated value is not in the
  range of \<open>long\<close> the behaviour is undefined in C; the value here is the one an x86-64
  processor delivers, the least \<open>long\<close>.\<close>

definition float_to_long :: "cfloat \<Rightarrow> int" where
  "float_to_long q =
     (let n = (if 0 \<le> q then \<lfloor>q\<rfloor> else \<lceil>q\<rceil>)
      in if - (2 ^ 63) \<le> n \<and> n < 2 ^ 63 then n else - (2 ^ 63))"

subsection \<open>Sizing policy\<close>

text \<open>\<open>isProbablePrime\<close> (lines 745-757): the loop \<open>for (i = 3; i < 51; i += 2)\<close>, from
  the value \<open>i\<close> on. C's \<open>%\<close> is \<open>smod\<close>.\<close>

function isProbablePrime_from :: "int \<Rightarrow> int \<Rightarrow> int" where
  "isProbablePrime_from oddNumber i =
     (if i < 51 then
        (if oddNumber = i then 1
         else if oddNumber smod i = 0 then 0
         else isProbablePrime_from oddNumber (i + 2))
      else 1)"
  by pat_completeness auto
termination
  by (relation "measure (\<lambda>(n, i). nat (51 - i))") auto

definition isProbablePrime :: "int \<Rightarrow> int" where
  "isProbablePrime oddNumber = isProbablePrime_from oddNumber 3"

text \<open>\<open>calculateIdealNumOfBuckets\<close> (lines 759-771). Its loop
  \<open>while (!isProbablePrime(idealNumOfBuckets)) idealNumOfBuckets += 2\<close> comes first; a
  run of it that never ends is \<open>None\<close>.\<close>

partial_function (option) searchProbablePrime :: "int \<Rightarrow> int option" where
  "searchProbablePrime idealNumOfBuckets =
     (if isProbablePrime idealNumOfBuckets = 0
      then searchProbablePrime (idealNumOfBuckets + 2)
      else Some idealNumOfBuckets)"

declare searchProbablePrime.simps [code]

text \<open>The value the search starts from (lines 761-767): the quotient
  \<open>hashTable->numOfElements / hashTable->idealRatio\<close> of a \<open>long\<close> by a \<open>float\<close>,
  which is a division of \<open>float\<close>s, converted to \<open>long\<close>; 5 when it is below 5, and
  otherwise with its lowest bit set.\<close>

definition firstCandidate :: "HashTable \<Rightarrow> int" where
  "firstCandidate hashTable =
     (let idealNumOfBuckets =
            float_to_long
              (float_div (long_to_float (numOfElements hashTable)) (idealRatio hashTable))
      in if idealNumOfBuckets < 5 then 5 else idealNumOfBuckets OR 1)"

definition calculateIdealNumOfBuckets :: "HashTable \<Rightarrow> int option" where
  "calculateIdealNumOfBuckets hashTable = searchProbablePrime (firstCandidate hashTable)"

subsection \<open>Default strategies\<close>

text \<open>\<open>pointercmp\<close> and \<open>pointerHashFunction\<close> (lines 733-743).\<close>

definition pointercmp :: "ptr \<Rightarrow> ptr \<Rightarrow> int" where
  "pointercmp pointer1 pointer2 = (if pointer1 \<noteq> pointer2 then 1 else 0)"

definition pointerHashFunction :: "ptr \<Rightarrow> 64 word" where
  "pointerHashFunction pointer = drop_bit 4 pointer"

subsection \<open>Engine\<close>

text \<open>\<open>hashFunction(key) % numOfBuckets\<close>: the remainder is taken on \<open>unsigned long\<close>.
  The bucket count is positive in every table that the operations return.\<close>

definition hashValue :: "HashTable \<Rightarrow> ptr \<Rightarrow> nat" where
  "hashValue hashTable k = unat (hashFunction hashTable k) mod nat (numOfBuckets hashTable)"

text \<open>The scan \<open>while (pair != NULL && keycmp(key, pair->key) != 0) pair = pair->next\<close>:
  the chain from the node where it stops.\<close>

fun findPair :: "(ptr \<Rightarrow> ptr \<Rightarrow> int) \<Rightarrow> ptr \<Rightarrow> KeyValuePair list \<Rightarrow> KeyValuePair list" where
  "findPair cmp k [] = []"
| "findPair cmp k (pair # nextPair) =
     (if cmp k (key pair) \<noteq> 0 then findPair cmp k nextPair else pair # nextPair)"

text \<open>The chain after the node where the scan stops has been given the key and the
  value of the call (\<open>pair->key = key; pair->value = value\<close>).\<close>

fun storePair :: "(ptr \<Rightarrow> ptr \<Rightarrow> int) \<Rightarrow> ptr \<Rightarrow> ptr \<Rightarrow> KeyValuePair list \<Rightarrow> KeyValuePair list" where
  "storePair cmp k v [] = []"
| "storePair cmp k v (pair # nextPair) =
     (if cmp k (key pair) \<noteq> 0 then pair # storePair cmp k v nextPair
      else pair\<lparr>key := k, val := v\<rparr> # nextPair)"

text \<open>The chain after the node where the scan stops has been unlinked
  (\<open>previousPair->next = pair->next\<close>, or the head of the bucket replaced).\<close>

fun unlinkPair :: "(ptr \<Rightarrow> ptr \<Rightarrow> int) \<Rightarrow> ptr \<Rightarrow> KeyValuePair list \<Rightarrow> KeyValuePair list" where
  "unlinkPair cmp k [] = []"
| "unlinkPair cmp k (pair # nextPair) =
     (if cmp k (key pair) \<noteq> 0 then pair # unlinkPair cmp k nextPair else nextPair)"

text \<open>\<open>HashTableCreate\<close> (lines 74-110). The booleans are the outcomes of the allocation
  of the table and of its bucket array; the null pointer it returns when one fails is
  \<open>None\<close>.\<close>

definition HashTableCreate :: "bool \<Rightarrow> bool \<Rightarrow> int \<Rightarrow> error + HashTable option" where
  "HashTableCreate tableAllocated arrayAllocated n =
     (if \<not> n > 0 then Inl AssertionFailed
      else if \<not> tableAllocated then Inr None
      else if \<not> arrayAllocated then Inr None
      else Inr (Some
        \<lparr>numOfBuckets = n, numOfElements = 0, bucketArray = replicate (nat n) [],
         idealRatio = 3, lowerRehashThreshold = 0, upperRehashThreshold = 15,
         keycmp = pointercmp, valuecmp = pointercmp, hashFunction = pointerHashFunction,
         keyDeallocator = NULL, valueDeallocator = NULL\<rparr>))"

text \<open>\<open>HashTableGet\<close> (lines 300-311) and \<open>HashTableContainsKey\<close> (lines 169-173).\<close>

definition HashTableGet :: "HashTable \<Rightarrow> ptr \<Rightarrow> ptr" where
  "HashTableGet hashTable k =
     (case findPair (keycmp hashTable) k (bucketArray hashTable ! hashValue hashTable k) of
        [] \<Rightarrow> NULL
      | pair # _ \<Rightarrow> val pair)"


text \<open>\<open>HashTableContainsValue\<close> (lines 195-210): the chains are scanned in the order of
  the buckets, until a value compares equal.\<close>

definition HashTableContainsValue :: "HashTable \<Rightarrow> ptr \<Rightarrow> int" where
  "HashTableContainsValue hashTable v =
     (if \<exists>i \<in> set [0..<nat (numOfBuckets hashTable)].
           \<exists>pair \<in> set (bucketArray hashTable ! i). valuecmp hashTable v (val pair) = 0
      then 1 else 0)"

text \<open>\<open>HashTableIsEmpty\<close>, \<open>HashTableSize\<close> and \<open>HashTableGetNumBuckets\<close> (lines 416-463).\<close>

definition HashTableIsEmpty :: "HashTable \<Rightarrow> int" where
  "HashTableIsEmpty hashTable = (if numOfElements hashTable = 0 then 1 else 0)"

definition HashTableSize :: "HashTable \<Rightarrow> int" where
  "HashTableSize hashTable = numOfElements hashTable"

definition HashTableGetNumBuckets :: "HashTable \<Rightarrow> int" where
  "HashTableGetNumBuckets hashTable = numOfBuckets hashTable"

text \<open>\<open>HashTableRehash\<close> (lines 577-618). Its inner loop first: every node of a chain,
  from its head, is linked in front of the chain of its bucket in the new array.\<close>

fun rehashChain :: "(ptr \<Rightarrow> 64 word) \<Rightarrow> int \<Rightarrow> KeyValuePair list \<Rightarrow>
    KeyValuePair list list \<Rightarrow> KeyValuePair list list" where
  "rehashChain h n [] newBucketArray = newBucketArray"
| "rehashChain h n (pair # nextPair) newBucketArray =
     (let hv = unat (h (key pair)) mod nat n
      in rehashChain h n nextPair (newBucketArray[hv := pair # newBucketArray ! hv]))"

text \<open>The new bucket array of \<open>HashTableRehash\<close>: all its buckets are emptied, then
  the chains of the old array are moved, in the order of the buckets.\<close>

definition rehashBuckets :: "HashTable \<Rightarrow> int \<Rightarrow> KeyValuePair list list" where
  "rehashBuckets hashTable n =
     fold (\<lambda>i. rehashChain (hashFunction hashTable) n (bucketArray hashTable ! i))
       [0..<nat (numOfBuckets hashTable)] (replicate (nat n) [])"

text \<open>The boolean is the outcome of the allocation of the new bucket array. A bucket
  count of 0 asks for the ideal one.\<close>

definition HashTableRehash :: "bool \<Rightarrow> HashTable \<Rightarrow> int \<Rightarrow> error + HashTable" where
  "HashTableRehash arrayAllocated hashTable n0 =
     (if \<not> n0 \<ge> 0 then Inl AssertionFailed
      else case (if n0 = 0 then calculateIdealNumOfBuckets hashTable else Some n0) of
        None \<Rightarrow> Inl NonTermination
      | Some n \<Rightarrow>
          if n = numOfBuckets hashTable then Inr hashTable
          else if \<not> arrayAllocated then Inr hashTable
          else Inr (hashTable\<lparr>bucketArray := rehashBuckets hashTable n, numOfBuckets := n\<rparr>))"

text \<open>\<open>HashTablePut\<close> (lines 232-281) returns its status (0 or -1), the table and its
  effects. The first boolean is the outcome of the allocation of the new node, the second
  that of the new bucket array when the put rehashes. When a node is found, its old key
  and its old value are passed to the deallocation functions that are set, if they are
  not the new ones.\<close>

definition HashTablePut :: "bool \<Rightarrow> bool \<Rightarrow> HashTable \<Rightarrow> ptr \<Rightarrow> ptr \<Rightarrow>
    error + (int \<times> HashTable \<times> effect list)" where
  "HashTablePut pairAllocated arrayAllocated hashTable k v =
     (if k = NULL then Inl AssertionFailed
      else if v = NULL then Inl AssertionFailed
      else
        let hv = hashValue hashTable k;
            chain = bucketArray hashTable ! hv
        in case findPair (keycmp hashTable) k chain of
          pair # _ \<Rightarrow>
            Inr (0,
              hashTable\<lparr>bucketArray :=
                (bucketArray hashTable)[hv := storePair (keycmp hashTable) k v chain]\<rparr>,
              (if key pair \<noteq> k \<and> keyDeallocator hashTable \<noteq> NULL
               then [Call (keyDeallocator hashTable) (key pair)] else []) @
              (if val pair \<noteq> v \<and> valueDeallocator hashTable \<noteq> NULL
               then [Call (valueDeallocator hashTable) (val pair)] else []))
        | [] \<Rightarrow>
            if \<not> pairAllocated then Inr (- 1, hashTable, [])
            else
              let t = hashTable
                    \<lparr>bucketArray := (bucketArray hashTable)[hv := \<lparr>key = k, val = v\<rparr> # chain],
                     numOfElements := numOfElements hashTable + 1\<rparr>
              in if upperRehashThreshold t > idealRatio t \<and>
                    float_div (long_to_float (numOfElements t)) (long_to_float (numOfBuckets t))
                      > upperRehashThreshold t
                 then (case HashTableRehash arrayAllocated t 0 of
                         Inl e \<Rightarrow> Inl e
                       | Inr t' \<Rightarrow> Inr (0, t', []))
                 else Inr (0, t, []))"

text \<open>The release of one node: the deallocation functions, when set, then \<open>free\<close>.\<close>

definition releasePair :: "HashTable \<Rightarrow> KeyValuePair \<Rightarrow> effect list" where
  "releasePair hashTable pair =
     (if keyDeallocator hashTable \<noteq> NULL
      then [Call (keyDeallocator hashTable) (key pair)] else []) @
     (if valueDeallocator hashTable \<noteq> NULL
      then [Call (valueDeallocator hashTable) (val pair)] else []) @
     [FreePair pair]"

text \<open>\<open>HashTableRemove\<close> (lines 329-362).\<close>

definition HashTableRemove :: "bool \<Rightarrow> HashTable \<Rightarrow> ptr \<Rightarrow> error + (HashTable \<times> effect list)" where
  "HashTableRemove arrayAllocated hashTable k =
     (let hv = hashValue hashTable k;
          chain = bucketArray hashTable ! hv
      in case findPair (keycmp hashTable) k chain of
        [] \<Rightarrow> Inr (hashTable, [])
      | pair # _ \<Rightarrow>
          let t = hashTable
                \<lparr>bucketArray := (bucketArray hashTable)[hv := unlinkPair (keycmp hashTable) k chain],
                 numOfElements := numOfElements hashTable - 1\<rparr>
          in if lowerRehashThreshold t > 0 \<and>
                float_div (long_to_float (numOfElements t)) (long_to_float (numOfBuckets t))
                  < lowerRehashThreshold t
             then (case HashTableRehash arrayAllocated t 0 of
                     Inl e \<Rightarrow> Inl e
                   | Inr t' \<Rightarrow> Inr (t', releasePair hashTable pair))
             else Inr (t, releasePair hashTable pair))"

text \<open>\<open>HashTableRemoveAll\<close> (lines 378-399). The body of its loop over the buckets first:
  every node of the chain is released, from the head, and the bucket is emptied.\<close>

definition releaseBucket :: "HashTable \<Rightarrow> nat \<Rightarrow> KeyValuePair list list \<times> effect list \<Rightarrow>
    KeyValuePair list list \<times> effect list" where
  "releaseBucket hashTable i = (\<lambda>(buckets, effects).
     (buckets[i := []], effects @ concat (map (releasePair hashTable) (buckets ! i))))"

definition HashTableRemoveAll :: "bool \<Rightarrow> HashTable \<Rightarrow> error + (HashTable \<times> effect list)" where
  "HashTableRemoveAll arrayAllocated hashTable =
     (let (buckets, effects) =
            fold (releaseBucket hashTable) [0..<nat (numOfBuckets hashTable)]
              (bucketArray hashTable, []);
          t = hashTable\<lparr>bucketArray := buckets, numOfElements := 0\<rparr>
      in case HashTableRehash arrayAllocated t 5 of
           Inl e \<Rightarrow> Inl e
         | Inr t' \<Rightarrow> Inr (t', effects))"

text \<open>The setters (lines 484-549 and 700-709). A function pointer that must not be null
  is an optional function, \<open>None\<close> for the null pointer.\<close>

definition HashTableSetKeyComparisonFunction ::
    "HashTable \<Rightarrow> (ptr \<Rightarrow> ptr \<Rightarrow> int) option \<Rightarrow> error + HashTable" where
  "HashTableSetKeyComparisonFunction hashTable f =
     (case f of None \<Rightarrow> Inl AssertionFailed
      | Some keycmp' \<Rightarrow> Inr (hashTable\<lparr>keycmp := keycmp'\<rparr>))"

definition HashTableSetValueComparisonFunction ::
    "HashTable \<Rightarrow> (ptr \<Rightarrow> ptr \<Rightarrow> int) option \<Rightarrow> error + HashTable" where
  "HashTableSetValueComparisonFunction hashTable f =
     (case f of None \<Rightarrow> Inl AssertionFailed
      | Some valuecmp' \<Rightarrow> Inr (hashTable\<lparr>valuecmp := valuecmp'\<rparr>))"

definition HashTableSetHashFunction ::
    "HashTable \<Rightarrow> (ptr \<Rightarrow> 64 word) option \<Rightarrow> error + HashTable" where
  "HashTableSetHashFunction hashTable f =
     (case f of None \<Rightarrow> Inl AssertionFailed
      | Some hashFunction' \<Rightarrow> Inr (hashTable\<lparr>hashFunction := hashFunction'\<rparr>))"

definition HashTableSetDeallocationFunctions :: "HashTable \<Rightarrow> ptr \<Rightarrow> ptr \<Rightarrow> HashTable" where
  "HashTableSetDeallocationFunctions hashTable keyDeallocator' valueDeallocator' =
     hashTable\<lparr>keyDeallocator := keyDeallocator', valueDeallocator := valueDeallocator'\<rparr>"

subsection \<open>Iterator\<close>

text \<open>A cursor (\<open>HashTableIterator\<close>): the index of a bucket and a pointer into its
  chain.\<close>

record HashTableIterator =
  bucket :: nat
  pair :: "KeyValuePair list"

text \<open>\<open>hashTableGetFirst\<close> (lines 846-861). Its loop first, from the bucket \<open>b\<close> on.\<close>

function getFirstFrom :: "HashTable \<Rightarrow> nat \<Rightarrow> (HashTableIterator \<times> ptr \<times> ptr) option" where
  "getFirstFrom t b =
     (if int b < numOfBuckets t then
        (case bucketArray t ! b of
           [] \<Rightarrow> getFirstFrom t (b + 1)
         | p # nextPair \<Rightarrow> Some (\<lparr>bucket = b, pair = p # nextPair\<rparr>, key p, val p))
      else None)"
  by pat_completeness auto
termination
  by (relation "measure (\<lambda>(t, b). nat (numOfBuckets t) - b)") auto

text \<open>The cursor is allocated first and never checked: when the allocation fails the
  first store through it fails.\<close>

definition hashTableGetFirst :: "bool \<Rightarrow> HashTable \<Rightarrow>
    error + (HashTableIterator \<times> ptr \<times> ptr) option" where
  "hashTableGetFirst iterAllocated t =
     (if \<not> iterAllocated then Inl NullDereference else Inr (getFirstFrom t 0))"

text \<open>\<open>hashTableGetNext\<close> (lines 863-883). Its loop first; the function itself starts
  with \<open>iter->pair = iter->pair->next\<close>.\<close>

function getNextLoop :: "HashTable \<Rightarrow> HashTableIterator \<Rightarrow>
    (HashTableIterator \<times> ptr \<times> ptr) option" where
  "getNextLoop t iter =
     (if int (bucket iter) < numOfBuckets t then
        (case pair iter of
           [] \<Rightarrow>
             if int (bucket iter) + 1 < numOfBuckets t
             then getNextLoop t
                    (iter\<lparr>bucket := bucket iter + 1, pair := bucketArray t ! (bucket iter + 1)\<rparr>)
             else None
         | p # _ \<Rightarrow> Some (iter, key p, val p))
      else None)"
  by pat_completeness auto
termination
  by (relation "measure (\<lambda>(t, iter). nat (numOfBuckets t) - bucket iter)") auto

definition hashTableGetNext :: "HashTable \<Rightarrow> HashTableIterator \<Rightarrow>
    error + (HashTableIterator \<times> ptr \<times> ptr) option" where
  "hashTableGetNext t iter =
     (case pair iter of
        [] \<Rightarrow> Inl NullDereference
      | _ # nextPair \<Rightarrow> Inr (getNextLoop t (iter\<lparr>pair := nextPair\<rparr>)))"

text \<open>A full iteration: from a result of \<open>first\<close> or \<open>next\<close>, \<open>next\<close> is applied until it
  returns the absent indicator; the keys and values met are collected in order. An
  iteration that fails or never ends is \<open>None\<close>.\<close>

partial_function (option) iterateFrom :: "HashTable \<Rightarrow>
    (HashTableIterator \<times> ptr \<times> ptr) option \<Rightarrow> (ptr \<times> ptr) list option" where
  "iterateFrom t cur =
     (case cur of
        None \<Rightarrow> Some []
      | Some (iter, k, v) \<Rightarrow>
          (case hashTableGetNext t iter of
             Inl e \<Rightarrow> None
           | Inr nxt \<Rightarrow> Option.bind (iterateFrom t nxt) (\<lambda>rest. Some ((k, v) # rest))))"

declare iterateFrom.simps [code]

definition fullIteration :: "HashTable \<Rightarrow> (ptr \<times> ptr) list option" where
  "fullIteration t =
     (case hashTableGetFirst True t of Inl e \<Rightarrow> None | Inr cur \<Rightarrow> iterateFrom t cur)"

subsection \<open>The representation invariant\<close>

text \<open>All the nodes of the table, bucket after bucket.\<close>

definition entries :: "HashTable \<Rightarrow> KeyValuePair list" where
  "entries t = concat (bucketArray t)"

text \<open>No two nodes (at different places) have keys that compare equal.\<close>

definition unique_keys :: "(ptr \<Rightarrow> ptr \<Rightarrow> int) \<Rightarrow> KeyValuePair list \<Rightarrow> bool" where
  "unique_keys cmp xs \<longleftrightarrow> (\<forall>p \<in> set xs. \<forall>q \<in> set (remove1 p xs). cmp (key p) (key q) \<noteq> 0)"

definition placed :: "HashTable \<Rightarrow> bool" where
  "placed t \<longleftrightarrow>
     (\<forall>i < length (bucketArray t). \<forall>p \<in> set (bucketArray t ! i). hashValue t (key p) = i)"

definition invariant :: "HashTable \<Rightarrow> bool" where
  "invariant t \<longleftrightarrow>
     0 < numOfBuckets t \<and>
     length (bucketArray t) = nat (numOfBuckets t) \<and>
     numOfElements t = int (length (entries t)) \<and>
     placed t \<and>
     unique_keys (keycmp t) (entries t)"

text \<open>What a table expects of its strategies: the key comparison function is symmetric
  and transitive, and keys that compare equal have the same hash.\<close>

definition keycmp_equivalence :: "HashTable \<Rightarrow> bool" where
  "keycmp_equivalence t \<longleftrightarrow>
     (\<forall>a b. keycmp t a b = 0 \<longrightarrow> keycmp t b a = 0) \<and>
     (\<forall>a b c. keycmp t a b = 0 \<longrightarrow> keycmp t b c = 0 \<longrightarrow> keycmp t a c = 0)"

definition hash_respects_keycmp :: "HashTable \<Rightarrow> bool" where
  "hash_respects_keycmp t \<longleftrightarrow> (\<forall>a b. keycmp t a b = 0 \<longrightarrow> hashFunction t a = hashFunction t b)"

text \<open>What holds of every table a program can reach (see \<open>reachable\<close> below): the
  invariant, strategies as expected once the table has entries, and no null key or
  value in a node.\<close>

definition sound_table :: "HashTable \<Rightarrow> bool" where
  "sound_table t \<longleftrightarrow>
     invariant t \<and>
     (entries t \<noteq> [] \<longrightarrow> keycmp_equivalence t \<and> hash_respects_keycmp t) \<and>
     (\<forall>p\<in>set (entries t). key p \<noteq> NULL \<and> val p \<noteq> NULL)"

text \<open>The nodes that a cursor has still to visit, the one it is at included.\<close>

definition remaining :: "HashTable \<Rightarrow> HashTableIterator \<Rightarrow> KeyValuePair list" where
  "remaining t iter = pair iter @ concat (drop (Suc (bucket iter)) (bucketArray t))"

text \<open>The node a key is looked up to: the first node of the table whose key compares
  equal to it.\<close>

definition lookup :: "HashTable \<Rightarrow> ptr \<Rightarrow> KeyValuePair option" where
  "lookup t k = List.find (\<lambda>p. keycmp t k (key p) = 0) (entries t)"

subsection \<open>The specification's notions\<close>

text \<open>The sizing policy in the words of the specification: the floor of the quotient,
  clamped to 5 when below 5 and otherwise made odd; a candidate passes the test when no
  odd number from 3 to 49 other than itself divides it. The quotient of the specification
  is the exact one (\<open>spec_start\<close>); \<open>float_start\<close> is the same start from the quotient
  in single precision.\<close>

definition spec_start :: "int \<Rightarrow> rat \<Rightarrow> int" where
  "spec_start elementCount ratio =
     (let q = \<lfloor>of_int elementCount / ratio\<rfloor>
      in if q < 5 then 5 else if even q then q + 1 else q)"

definition float_start :: "int \<Rightarrow> cfloat \<Rightarrow> int" where
  "float_start elementCount ratio =
     (let q = \<lfloor>float_div (long_to_float elementCount) ratio\<rfloor>
      in if q < 5 then 5 else if even q then q + 1 else q)"

definition spec_probable_prime :: "int \<Rightarrow> bool" where
  "spec_probable_prime n = (\<forall>i \<in> {3..49}. odd i \<longrightarrow> i dvd n \<longrightarrow> n = i)"

subsection \<open>Sequences of operations\<close>

text \<open>A sequence of puts whose nodes are all allocated; each put comes with the outcome
  of the allocation of a new bucket array, should it rehash.\<close>

fun putSequence :: "HashTable \<Rightarrow> (bool \<times> ptr \<times> ptr) list \<Rightarrow> error + HashTable" where
  "putSequence t [] = Inr t"
| "putSequence t ((arrayAllocated, k, v) # puts) =
     (case HashTablePut True arrayAllocated t k v of
        Inl e \<Rightarrow> Inl e
      | Inr (rc, t', eff) \<Rightarrow> putSequence t' puts)"

text \<open>The value of the most recent put of a sequence whose key compares equal to \<open>k\<close>.\<close>

definition lastPut :: "(ptr \<Rightarrow> ptr \<Rightarrow> int) \<Rightarrow> ptr \<Rightarrow> (bool \<times> ptr \<times> ptr) list \<Rightarrow> ptr option" where
  "lastPut cmp k puts =
     map_option (\<lambda>(a, k', v). v) (List.find (\<lambda>(a, k', v). cmp k k' = 0) (rev puts))"

text \<open>The tables a program gets from \<open>HashTableCreate\<close> and the operations, when it
  replaces the key comparison and the hash function only while the table is empty, and
  puts only under strategies that are as the table expects them. (The operations that
  only read the table, \<open>get\<close> among them, need no rule.)\<close>

inductive reachable :: "HashTable \<Rightarrow> bool" where
  create: "HashTableCreate True True n = Inr (Some t) \<Longrightarrow> reachable t"
| put: "reachable t \<Longrightarrow> keycmp_equivalence t \<Longrightarrow> hash_respects_keycmp t \<Longrightarrow>
        HashTablePut pairAllocated arrayAllocated t k v = Inr (rc, t', eff) \<Longrightarrow> reachable t'"
| remove: "reachable t \<Longrightarrow> HashTableRemove arrayAllocated t k = Inr (t', eff) \<Longrightarrow> reachable t'"
| removeAll: "reachable t \<Longrightarrow> HashTableRemoveAll arrayAllocated t = Inr (t', eff) \<Longrightarrow> reachable t'"
| rehash: "reachable t \<Longrightarrow> HashTableRehash arrayAllocated t n = Inr t' \<Longrightarrow> reachable t'"
| setKeyComparison: "reachable t \<Longrightarrow> numOfElements t = 0 \<Longrightarrow>
        HashTableSetKeyComparisonFunction t f = Inr t' \<Longrightarrow> reachable t'"
| setHashFunction: "reachable t \<Longrightarrow> numOfElements t = 0 \<Longrightarrow>
        HashTableSetHashFunction t h = Inr t' \<Longrightarrow> reachable t'"
| setValueComparison: "reachable t \<Longrightarrow>
        HashTableSetValueComparisonFunction t f = Inr t' \<Longrightarrow> reachable t'"
| setDeallocation: "reachable t \<Longrightarrow>
        reachable (HashTableSetDeallocationFunctions t keyDeallocator' valueDeallocator')"

subsection \<open>An example table\<close>

text \<open>The table that \<open>HashTableCreate\<close> returns for 5 buckets.\<close>

definition exampleTable :: HashTable where
  "exampleTable =
     \<lparr>numOfBuckets = 5, numOfElements = 0, bucketArray = [[], [], [], [], []],
      idealRatio = 3, lowerRehashThreshold = 0, upperRehashThreshold = 15,
      keycmp = pointercmp, valuecmp = pointercmp, hashFunction = pointerHashFunction,
      keyDeallocator = NULL, valueDeallocator = NULL\<rparr>"

text \<open>The example table after \<open>put(0x10, 0x1000)\<close> and \<open>put(0x240, 0x2000)\<close>: both keys
  hash to bucket 1 (\<open>0x10 >> 4 = 1\<close>, \<open>0x240 >> 4 = 36\<close>).\<close>

definition oneKeyTable :: HashTable where
  "oneKeyTable = exampleTable
     \<lparr>numOfElements := 1,
      bucketArray := [[], [\<lparr>key = 0x10, val = 0x1000\<rparr>], [], [], []]\<rparr>"

definition twoKeyTable :: HashTable where
  "twoKeyTable = exampleTable
     \<lparr>numOfElements := 2,
      bucketArray :=
        [[], [\<lparr>key = 0x240, val = 0x2000\<rparr>, \<lparr>key = 0x10, val = 0x1000\<rparr>], [], [], []]\<rparr>"

text \<open>The same table after \<open>rehash(7)\<close>: both keys are in bucket 1 again
  (\<open>36 mod 7 = 1\<close>).\<close>

definition twoKeyTable7 :: HashTable where
  "twoKeyTable7 = exampleTable
     \<lparr>numOfBuckets := 7, numOfElements := 2,
      bucketArray :=
        [[], [\<lparr>key = 0x10, val = 0x1000\<rparr>, \<lparr>key = 0x240, val = 0x2000\<rparr>], [], [], [], [], []]\<rparr>"

text \<open>A hash function that sends every key to 0.\<close>

definition zeroHash :: "ptr \<Rightarrow> 64 word" where
  "zeroHash p = 0"

subsection \<open>Properties of the sizing policy\<close>

lemma smod_eq_0_iff_dvd: "(n::int) smod i = 0 \<longleftrightarrow> i dvd n"
proof -
  have "n smod i = 0 \<longleftrightarrow> \<bar>n\<bar> mod \<bar>i\<bar> = 0"
    by (auto simp: signed_modulo_int_def sgn_if)
  also have "\<dots> \<longleftrightarrow> \<bar>i\<bar> dvd \<bar>n\<bar>"
    by (simp add: dvd_eq_mod_eq_0)
  finally show ?thesis by simp
qed

lemma isProbablePrime_from_iff:
  "odd i \<Longrightarrow> 3 \<le> i \<Longrightarrow> \<forall>j. 3 \<le> j \<and> j < i \<and> odd j \<longrightarrow> \<not> j dvd n \<Longrightarrow>
   isProbablePrime_from n i \<noteq> 0 \<longleftrightarrow> (\<forall>j. i \<le> j \<and> j < 51 \<and> odd j \<longrightarrow> j dvd n \<longrightarrow> n = j)"
proof (induction n i rule: isProbablePrime_from.induct)
  case (1 n i)
  show ?case
  proof (cases "i < 51")
    case False
    then show ?thesis
      by (subst isProbablePrime_from.simps) auto
  next
    case lt: True
    show ?thesis
    proof (cases "n = i")
      case True
      have "j = i" if "i \<le> j" "j dvd i" for j
        using that "1.prems"(2) zdvd_imp_le [of j i] by simp
      with True lt show ?thesis
        by (subst isProbablePrime_from.simps) auto
    next
      case ne: False
      show ?thesis
      proof (cases "i dvd n")
        case True
        with ne lt "1.prems"(1) show ?thesis
          by (subst isProbablePrime_from.simps) (auto simp: smod_eq_0_iff_dvd)
      next
        case nd: False
        have pre: "\<forall>j. 3 \<le> j \<and> j < i + 2 \<and> odd j \<longrightarrow> \<not> j dvd n"
        proof (intro allI impI)
          fix j assume j: "3 \<le> j \<and> j < i + 2 \<and> odd j"
          show "\<not> j dvd n"
          proof (cases "j < i")
            case True
            with j "1.prems"(3) show ?thesis by blast
          next
            case False
            with j "1.prems"(1) have "j = i"
              by (cases "j = i + 1") auto
            with nd show ?thesis by simp
          qed
        qed
        have ih: "isProbablePrime_from n (i + 2) \<noteq> 0 \<longleftrightarrow>
                  (\<forall>j. i + 2 \<le> j \<and> j < 51 \<and> odd j \<longrightarrow> j dvd n \<longrightarrow> n = j)"
          using "1.IH" [OF lt ne] nd "1.prems"(1,2) pre
          by (simp add: smod_eq_0_iff_dvd)
        have step: "(\<forall>j. i \<le> j \<and> j < 51 \<and> odd j \<longrightarrow> j dvd n \<longrightarrow> n = j) \<longleftrightarrow>
                    (\<forall>j. i + 2 \<le> j \<and> j < 51 \<and> odd j \<longrightarrow> j dvd n \<longrightarrow> n = j)"
        proof
          assume "\<forall>j. i \<le> j \<and> j < 51 \<and> odd j \<longrightarrow> j dvd n \<longrightarrow> n = j"
          then show "\<forall>j. i + 2 \<le> j \<and> j < 51 \<and> odd j \<longrightarrow> j dvd n \<longrightarrow> n = j"
            by auto
        next
          assume r: "\<forall>j. i + 2 \<le> j \<and> j < 51 \<and> odd j \<longrightarrow> j dvd n \<longrightarrow> n = j"
          show "\<forall>j. i \<le> j \<and> j < 51 \<and> odd j \<longrightarrow> j dvd n \<longrightarrow> n = j"
          proof (intro allI impI)
            fix j assume j: "i \<le> j \<and> j < 51 \<and> odd j" and d: "j dvd n"
            have "j \<noteq> i" using d nd by auto
            moreover have "j \<noteq> i + 1" using j "1.prems"(1) by auto
            ultimately have "i + 2 \<le> j" using j by simp
            with r j d show "n = j" by blast
          qed
        qed
        have "isProbablePrime_from n i = isProbablePrime_from n (i + 2)"
          using lt ne nd by (subst isProbablePrime_from.simps) (simp add: smod_eq_0_iff_dvd)
        with ih step show ?thesis by simp
      qed
    qed
  qed
qed

lemma isProbablePrime_iff: "isProbablePrime n \<noteq> 0 \<longleftrightarrow> spec_probable_prime n"
proof -
  have "isProbablePrime_from n 3 \<noteq> 0 \<longleftrightarrow>
        (\<forall>j. 3 \<le> j \<and> j < 51 \<and> odd j \<longrightarrow> j dvd n \<longrightarrow> n = j)"
    by (rule isProbablePrime_from_iff) auto
  moreover have "(\<forall>j. 3 \<le> j \<and> j < 51 \<and> odd j \<longrightarrow> j dvd n \<longrightarrow> n = j) \<longleftrightarrow>
                 spec_probable_prime n"
  proof -
    have "j < 51 \<longleftrightarrow> j \<le> 49" if "odd j" for j :: int
      using that by (cases "j = 50") auto
    then show ?thesis
      unfolding spec_probable_prime_def by auto
  qed
  ultimately show ?thesis
    by (simp add: isProbablePrime_def)
qed


lemma searchProbablePrime_reaches:
  "isProbablePrime (n + 2 * int j) \<noteq> 0 \<Longrightarrow>
   \<exists>i\<le>j. searchProbablePrime n = Some (n + 2 * int i) \<and>
          isProbablePrime (n + 2 * int i) \<noteq> 0 \<and>
          (\<forall>i'<i. isProbablePrime (n + 2 * int i') = 0)"
proof (induction j arbitrary: n)
  case 0
  then have "searchProbablePrime n = Some n"
    by (subst searchProbablePrime.simps) simp
  with 0 show ?case by simp
next
  case (Suc j)
  show ?case
  proof (cases "isProbablePrime n = 0")
    case False
    then have "searchProbablePrime n = Some n"
      by (subst searchProbablePrime.simps) simp
    with False show ?thesis
      by (intro exI [of _ 0]) simp
  next
    case True
    from Suc.prems have "isProbablePrime (n + 2 + 2 * int j) \<noteq> 0"
      by (simp add: algebra_simps)
    from Suc.IH [OF this] obtain i where i: "i \<le> j"
      "searchProbablePrime (n + 2) = Some (n + 2 + 2 * int i)"
      "isProbablePrime (n + 2 + 2 * int i) \<noteq> 0"
      "\<forall>i'<i. isProbablePrime (n + 2 + 2 * int i') = 0"
      by blast
    have s: "searchProbablePrime n = searchProbablePrime (n + 2)"
      using True by (subst searchProbablePrime.simps) simp
    have e: "n + 2 + 2 * int k = n + 2 * int (Suc k)" for k
      by simp
    have "\<forall>i'<Suc i. isProbablePrime (n + 2 * int i') = 0"
    proof (intro allI impI)
      fix i' assume "i' < Suc i"
      show "isProbablePrime (n + 2 * int i') = 0"
      proof (cases i')
        case 0
        with True show ?thesis by simp
      next
        case (Suc k)
        with \<open>i' < Suc i\<close> i(4) have "isProbablePrime (n + 2 + 2 * int k) = 0"
          by simp
        with Suc show ?thesis by (simp add: e)
      qed
    qed
    with i s show ?thesis
      by (intro exI [of _ "Suc i"]) (simp add: e)
  qed
qed

lemma probable_prime_exists:
  assumes "odd n"
  shows "\<exists>j. isProbablePrime (n + 2 * int j) \<noteq> 0"
proof -
  define L :: int where "L = \<Prod>{i \<in> {3..49}. odd i}"
  define m where "m = 1 + 2 * L * (\<bar>n\<bar> + 1)"
  have Lpos: "1 \<le> L"
    unfolding L_def by (intro prod_ge_1) auto
  have fin: "finite {i \<in> {3..49::int}. odd i}"
    by (rule finite_subset [of _ "{3..49}"]) auto
  have dvdL: "i dvd L" if "i \<in> {3..49}" "odd i" for i
    unfolding L_def using that fin by (intro dvd_prodI) auto
  have acc: "spec_probable_prime m"
    unfolding spec_probable_prime_def
  proof (intro ballI impI)
    fix i :: int assume i: "i \<in> {3..49}" "odd i" "i dvd m"
    from dvdL [OF i(1,2)] have "i dvd 2 * L * (\<bar>n\<bar> + 1)"
      by simp
    with i(3) have "i dvd m - 2 * L * (\<bar>n\<bar> + 1)"
      by (rule dvd_diff)
    then have "i dvd 1" by (simp add: m_def)
    with i(1) show "m = i" by simp
  qed
  have "\<bar>n\<bar> + 1 \<le> L * (\<bar>n\<bar> + 1)"
    using Lpos mult_right_mono [of 1 L "\<bar>n\<bar> + 1"] by simp
  moreover have "m = 1 + 2 * (L * (\<bar>n\<bar> + 1))"
    by (simp add: m_def)
  ultimately have ge: "n \<le> m" by linarith
  have "even (m - n)" using assms by (simp add: m_def)
  then obtain d where d: "m - n = 2 * d" by (elim evenE)
  with ge have "0 \<le> d" by simp
  then have "n + 2 * int (nat d) = m" using d by simp
  with acc show ?thesis
    by (intro exI [of _ "nat d"]) (simp add: isProbablePrime_iff)
qed

lemma odd_firstCandidate: "odd (firstCandidate t)"
  by (simp add: firstCandidate_def Let_def even_or_iff)

lemma firstCandidate_ge_5: "5 \<le> firstCandidate t"
proof -
  have "x \<le> x OR 1" for x :: int
    by (simp add: or_one_eq)
  then show ?thesis
    unfolding firstCandidate_def Let_def
    by (smt (verit))
qed

lemma round_half_even_nonneg: "0 \<le> q \<Longrightarrow> 0 \<le> round_half_even q"
  by (simp add: round_half_even_def Let_def)

lemma float_round_nonneg:
  assumes "0 \<le> q"
  shows "0 \<le> float_round q"
proof (cases "q = 0")
  case True
  then show ?thesis by (simp add: float_round_def)
next
  case False
  define e where "e = max (- 149) (floor_log2 \<bar>q\<bar> - 23)"
  have p: "(0::rat) < 2 powi e" by simp
  with assms have "0 \<le> q / 2 powi e" by simp
  then have "0 \<le> round_half_even (q / 2 powi e)" by (rule round_half_even_nonneg)
  then have "(0::rat) \<le> of_int (round_half_even (q / 2 powi e)) * 2 powi e"
    using p by simp
  with False show ?thesis by (simp add: float_round_def e_def Let_def)
qed

lemma float_quotient_nonneg:
  assumes "0 \<le> n" "0 < ratio"
  shows "0 \<le> float_div (long_to_float n) ratio"
proof -
  from assms(1) have "0 \<le> long_to_float n"
    unfolding long_to_float_def by (intro float_round_nonneg) simp
  with assms(2) have "0 \<le> long_to_float n / ratio" by simp
  then show ?thesis unfolding float_div_def by (rule float_round_nonneg)
qed

lemma float_to_long_floor:
  assumes "0 \<le> q" "q < 2 ^ 63"
  shows "float_to_long q = \<lfloor>q\<rfloor>"
proof -
  from assms(1) have "0 \<le> \<lfloor>q\<rfloor>" by simp
  moreover from assms(2) have "\<lfloor>q\<rfloor> < 2 ^ 63" by (simp add: floor_less_iff)
  ultimately show ?thesis using assms(1) by (simp add: float_to_long_def Let_def)
qed

lemma firstCandidate_eq_float_start:
  assumes "0 \<le> numOfElements t" "0 < idealRatio t"
    and "float_div (long_to_float (numOfElements t)) (idealRatio t) < 2 ^ 63"
  shows "firstCandidate t = float_start (numOfElements t) (idealRatio t)"
proof -
  have "float_to_long (float_div (long_to_float (numOfElements t)) (idealRatio t)) =
      \<lfloor>float_div (long_to_float (numOfElements t)) (idealRatio t)\<rfloor>"
    using float_quotient_nonneg [OF assms(1,2)] assms(3) by (rule float_to_long_floor)
  then show ?thesis
    by (simp add: firstCandidate_def float_start_def Let_def or_one_eq)
qed

lemma calculateIdealNumOfBuckets_cong:
  assumes "numOfElements t = numOfElements t'" "idealRatio t = idealRatio t'"
  shows "calculateIdealNumOfBuckets t = calculateIdealNumOfBuckets t'"
  using assms by (simp add: calculateIdealNumOfBuckets_def firstCandidate_def)

lemma last_prime_below_long_max: "isProbablePrime 9223372036854775783 \<noteq> 0"
  by (simp add: isProbablePrime_def)


subsection \<open>Chains\<close>

lemma findPair_Nil_iff: "findPair cmp k c = [] \<longleftrightarrow> (\<forall>p\<in>set c. cmp k (key p) \<noteq> 0)"
  by (induction c) auto

lemma findPair_ConsD:
  "findPair cmp k c = p # r \<Longrightarrow> p \<in> set c \<and> cmp k (key p) = 0"
  by (induction c) (auto split: if_splits)

lemma add_mset_diff_single:
  "add_mset a M - {#p#} = add_mset a (M - {#p#})" if "p \<in># M"
proof (cases "a = p")
  case True
  with that show ?thesis by simp
next
  case False
  with that show ?thesis
    using multiset_add_sub_el_shuffle [of p M a] by simp
qed

lemma mset_storePair:
  "mset (storePair cmp k v c) =
     (case findPair cmp k c of [] \<Rightarrow> mset c
      | p # _ \<Rightarrow> add_mset \<lparr>key = k, val = v\<rparr> (mset c - {#p#}))"
proof (induction c)
  case Nil
  then show ?case by simp
next
  case (Cons a c)
  show ?case
  proof (cases "cmp k (key a) \<noteq> 0")
    case False
    then show ?thesis by simp
  next
    case ne: True
    show ?thesis
    proof (cases "findPair cmp k c")
      case Nil
      with ne Cons.IH show ?thesis by simp
    next
      case found: (Cons p r)
      then have "p \<in># mset c" by (auto dest: findPair_ConsD)
      then have "add_mset a (mset c) - {#p#} = add_mset a (mset c - {#p#})"
        by (rule add_mset_diff_single)
      then have e: "mset (a # c) - {#p#} = add_mset a (mset c - {#p#})"
        by (simp only: mset.simps)
      have "mset (storePair cmp k v (a # c)) =
            add_mset a (add_mset \<lparr>key = k, val = v\<rparr> (mset c - {#p#}))"
        using ne found Cons.IH by simp
      also have "\<dots> = add_mset \<lparr>key = k, val = v\<rparr> (mset (a # c) - {#p#})"
        unfolding e by (rule add_mset_commute)
      finally show ?thesis using ne found by simp
    qed
  qed
qed

lemma mset_unlinkPair:
  "mset (unlinkPair cmp k c) =
     (case findPair cmp k c of [] \<Rightarrow> mset c | p # _ \<Rightarrow> mset c - {#p#})"
proof (induction c)
  case Nil
  then show ?case by simp
next
  case (Cons a c)
  show ?case
  proof (cases "cmp k (key a) \<noteq> 0")
    case False
    then show ?thesis by simp
  next
    case ne: True
    show ?thesis
    proof (cases "findPair cmp k c")
      case Nil
      with ne Cons.IH show ?thesis by simp
    next
      case found: (Cons p r)
      then have "p \<in># mset c" by (auto dest: findPair_ConsD)
      then have "add_mset a (mset c) - {#p#} = add_mset a (mset c - {#p#})"
        by (rule add_mset_diff_single)
      then have e: "mset (a # c) - {#p#} = add_mset a (mset c - {#p#})"
        by (simp only: mset.simps)
      have "mset (unlinkPair cmp k (a # c)) = add_mset a (mset c - {#p#})"
        using ne found Cons.IH by simp
      also have "\<dots> = mset (a # c) - {#p#}"
        by (rule e [symmetric])
      finally show ?thesis using ne found by simp
    qed
  qed
qed


lemma find_findPair:
  "List.find (\<lambda>p. cmp k (key p) = 0) c = (case findPair cmp k c of [] \<Rightarrow> None | p # _ \<Rightarrow> Some p)"
  by (induction c) auto

lemma length_storePair: "length (storePair cmp k v c) = length c"
  by (induction c) auto

lemma find_append:
  "List.find P (xs @ ys) = (case List.find P xs of None \<Rightarrow> List.find P ys | Some x \<Rightarrow> Some x)"
  by (induction xs) auto

subsection \<open>Bucket arrays\<close>

lemma mset_concat_update:
  "i < length xss \<Longrightarrow>
   mset (concat (xss[i := c])) + mset (xss ! i) = mset (concat xss) + mset c"
proof (induction xss arbitrary: i)
  case Nil
  then show ?case by simp
next
  case (Cons a xss)
  show ?case
  proof (cases i)
    case 0
    then show ?thesis by simp
  next
    case (Suc j)
    with Cons.prems have "j < length xss" by simp
    from Cons.IH [OF this] Suc show ?thesis
      by (simp add: ac_simps)
  qed
qed

lemma find_concat_bucket:
  assumes "i0 < length xss"
    and "\<forall>i<length xss. i \<noteq> i0 \<longrightarrow> (\<forall>p\<in>set (xss ! i). \<not> P p)"
  shows "List.find P (concat xss) = List.find P (xss ! i0)"
proof -
  have split: "xss = take i0 xss @ xss ! i0 # drop (Suc i0) xss"
    using assms(1) by (rule id_take_nth_drop)
  have before: "List.find P (concat (take i0 xss)) = None"
  proof -
    have "\<not> P p" if "p \<in> set (concat (take i0 xss))" for p
    proof -
      from that obtain c where c: "c \<in> set (take i0 xss)" "p \<in> set c" by auto
      then obtain j where "j < length (take i0 xss)" "take i0 xss ! j = c"
        by (auto simp: in_set_conv_nth)
      then have "j < length xss" "j \<noteq> i0" "xss ! j = c"
        using assms(1) by auto
      with assms(2) c(2) show ?thesis by blast
    qed
    then show ?thesis by (auto simp: find_None_iff)
  qed
  have after: "List.find P (concat (drop (Suc i0) xss)) = None"
  proof -
    have "\<not> P p" if "p \<in> set (concat (drop (Suc i0) xss))" for p
    proof -
      from that obtain c where c: "c \<in> set (drop (Suc i0) xss)" "p \<in> set c" by auto
      then obtain j where j: "j < length (drop (Suc i0) xss)" "drop (Suc i0) xss ! j = c"
        by (auto simp: in_set_conv_nth)
      then have "Suc i0 + j < length xss" "Suc i0 + j \<noteq> i0" "xss ! (Suc i0 + j) = c"
        by auto
      with assms(2) c(2) show ?thesis by blast
    qed
    then show ?thesis by (auto simp: find_None_iff)
  qed
  have "List.find P (concat xss) =
        List.find P (concat (take i0 xss) @ xss ! i0 @ concat (drop (Suc i0) xss))"
    by (subst split) simp
  also have "\<dots> = List.find P (xss ! i0)"
    using before after by (simp add: find_append split: option.split)
  finally show ?thesis .
qed

subsection \<open>Uniqueness of keys\<close>

lemma unique_keys_mset_cong:
  assumes "mset xs = mset ys"
  shows "unique_keys cmp xs = unique_keys cmp ys"
proof -
  have "set xs = set ys" using assms by (rule mset_eq_setD)
  moreover have "set (remove1 p xs) = set (remove1 p ys)" for p
  proof -
    have "mset (remove1 p xs) = mset (remove1 p ys)" using assms by simp
    then show ?thesis by (rule mset_eq_setD)
  qed
  ultimately show ?thesis by (simp add: unique_keys_def)
qed

lemma unique_keys_submset:
  assumes "unique_keys cmp xs" "mset ys \<subseteq># mset xs"
  shows "unique_keys cmp ys"
  unfolding unique_keys_def
proof (intro ballI)
  fix p q assume p: "p \<in> set ys" and q: "q \<in> set (remove1 p ys)"
  from p assms(2) have "p \<in> set xs"
    by (metis mset_subset_eqD set_mset_mset)
  moreover have "mset (remove1 p ys) \<subseteq># mset (remove1 p xs)"
    using assms(2) by (auto simp: subseteq_mset_def intro: diff_le_mono)
  with q have "q \<in> set (remove1 p xs)"
    by (metis mset_subset_eqD set_mset_mset)
  ultimately show "cmp (key p) (key q) \<noteq> 0"
    using assms(1) by (auto simp: unique_keys_def)
qed

lemma unique_keys_Nil: "unique_keys cmp []"
  by (simp add: unique_keys_def)

lemma unique_keys_Cons:
  "unique_keys cmp (x # xs) \<longleftrightarrow>
     (\<forall>q\<in>set xs. cmp (key x) (key q) \<noteq> 0 \<and> cmp (key q) (key x) \<noteq> 0) \<and> unique_keys cmp xs"
  (is "?l \<longleftrightarrow> ?a \<and> ?r")
proof
  assume l: ?l
  have "?a"
  proof
    fix q assume q: "q \<in> set xs"
    have 1: "cmp (key x) (key q) \<noteq> 0"
      using l q by (auto simp: unique_keys_def)
    have "x \<in> set (remove1 q (x # xs))"
      using q by (cases "q = x") auto
    with l q have 2: "cmp (key q) (key x) \<noteq> 0"
      unfolding unique_keys_def by (metis list.set_intros(2))
    from 1 2 show "cmp (key x) (key q) \<noteq> 0 \<and> cmp (key q) (key x) \<noteq> 0" ..
  qed
  moreover have ?r
    using l by (rule unique_keys_submset) simp
  ultimately show "?a \<and> ?r" ..
next
  assume ar: "?a \<and> ?r"
  show ?l
    unfolding unique_keys_def
  proof (intro ballI)
    fix p q assume p: "p \<in> set (x # xs)" and q: "q \<in> set (remove1 p (x # xs))"
    show "cmp (key p) (key q) \<noteq> 0"
    proof (cases "p = x")
      case True
      with q ar show ?thesis by auto
    next
      case False
      with p q have "p \<in> set xs" "q = x \<or> q \<in> set (remove1 p xs)" by auto
      with ar show ?thesis by (auto simp: unique_keys_def)
    qed
  qed
qed

subsection \<open>Properties of the single-precision arithmetic\<close>

text \<open>\<open>floor_log2\<close> is the exponent of the leading binary digit; the rounding returns a
  multiple of the unit in the last place that is at most half a unit away, and leaves the
  numbers of the format as they are: a \<open>long\<close> below \<open>2^24\<close> in magnitude converts
  exactly.\<close>

lemma bit_length_pos: "0 < n \<Longrightarrow> 0 < bit_length n"
proof (induction n rule: bit_length.induct)
  case (1 n)
  show ?case
  proof (cases "n div 2 = 0")
    case True
    with 1(2) show ?thesis
      by (subst bit_length.simps) (simp add: bit_length.simps [of 0])
  next
    case False
    with 1(2) have "0 < n div 2" by linarith
    with 1 have "0 < bit_length (n div 2)" by simp
    with 1(2) show ?thesis by (subst bit_length.simps) simp
  qed
qed

lemma bit_length_bounds:
  "0 < n \<Longrightarrow> 2 ^ nat (bit_length n - 1) \<le> n \<and> n < 2 ^ nat (bit_length n)"
proof (induction n rule: bit_length.induct)
  case (1 n)
  show ?case
  proof (cases "n div 2 = 0")
    case True
    with 1(2) have "n = 1" by linarith
    then show ?thesis
      by (simp add: bit_length.simps [of 1] bit_length.simps [of 0])
  next
    case False
    with 1(2) have p: "0 < n div 2" by linarith
    define k where "k = bit_length (n div 2)"
    from p have kp: "0 < k" unfolding k_def by (rule bit_length_pos)
    from 1(1) 1(2) p have ih: "2 ^ nat (k - 1) \<le> n div 2" "n div 2 < 2 ^ nat k"
      by (simp_all add: k_def)
    have bl: "bit_length n = k + 1"
      using 1(2) by (subst bit_length.simps) (simp add: k_def)
    from kp have e: "nat k = Suc (nat (k - 1))" "nat (k + 1) = Suc (nat k)" by linarith+
    have "(2::int) ^ nat k = 2 * 2 ^ nat (k - 1)" by (simp add: e(1))
    also have "\<dots> \<le> 2 * (n div 2)" using ih(1) by simp
    also have "\<dots> \<le> n" by presburger
    finally have lo: "2 ^ nat k \<le> n" .
    have "n < 2 * (n div 2 + 1)" by presburger
    also have "\<dots> \<le> 2 * 2 ^ nat k" using ih(2) by simp
    also have "\<dots> = 2 ^ nat (k + 1)" by (simp add: e(2))
    finally have hi: "n < 2 ^ nat (k + 1)" .
    from lo hi show ?thesis by (simp add: bl)
  qed
qed

lemma bit_length_bounds_rat:
  assumes "0 < n"
  shows "(2::rat) powi (bit_length n - 1) \<le> of_int n" "(of_int n :: rat) < 2 powi bit_length n"
proof -
  from bit_length_pos [OF assms] have p: "0 \<le> bit_length n - 1" "0 \<le> bit_length n" by simp_all
  from bit_length_bounds [OF assms]
  have "(of_int (2 ^ nat (bit_length n - 1)) :: rat) \<le> of_int n"
    "(of_int n :: rat) < of_int (2 ^ nat (bit_length n))"
    unfolding of_int_le_iff of_int_less_iff by simp_all
  then show "(2::rat) powi (bit_length n - 1) \<le> of_int n" "(of_int n :: rat) < 2 powi bit_length n"
    using p by (simp_all add: power_int_def)
qed

lemma floor_log2_bounds:
  assumes "0 < q"
  shows "2 powi floor_log2 q \<le> q" "q < 2 powi (floor_log2 q + 1)"
proof -
  obtain a b where ab: "quotient_of q = (a, b)" by (cases "quotient_of q")
  then have b: "0 < b" and q: "q = of_int a / of_int b"
    by (simp_all add: quotient_of_denom_pos quotient_of_div)
  from assms q b have a: "0 < a" by (simp add: zero_less_divide_iff)
  define d where "d = bit_length a - bit_length b"
  note A = bit_length_bounds_rat [OF a] and B = bit_length_bounds_rat [OF b]
  have bpos: "(0::rat) < of_int b" using b by simp
  have "q < 2 powi bit_length a / of_int b"
    unfolding q using A(2) bpos by (simp add: divide_strict_right_mono)
  also have "\<dots> \<le> 2 powi bit_length a / 2 powi (bit_length b - 1)"
    using B(1) b by (intro divide_left_mono) (simp_all add: zero_less_mult_iff)
  also have "\<dots> = 2 powi (d + 1)"
    by (simp add: d_def power_int_diff [symmetric] algebra_simps)
  finally have hi: "q < 2 powi (d + 1)" .
  have "2 powi (d - 1) = 2 powi (bit_length a - 1) / (2::rat) powi bit_length b"
    by (simp add: d_def power_int_diff [symmetric] algebra_simps)
  also have "\<dots> \<le> of_int a / 2 powi bit_length b"
    using A(1) by (simp add: divide_right_mono)
  also have "\<dots> < of_int a / of_int b"
    using B(2) a bpos by (intro divide_strict_left_mono) (simp_all add: zero_less_mult_iff)
  finally have lo: "2 powi (d - 1) < q" by (simp add: q)
  have fl: "floor_log2 q = (if 2 powi d \<le> q then d else d - 1)"
    by (simp add: floor_log2_def ab d_def Let_def)
  show "2 powi floor_log2 q \<le> q" using lo by (simp add: fl)
  show "q < 2 powi (floor_log2 q + 1)" using hi by (simp add: fl)
qed

lemma round_half_even_nearest: "\<bar>of_int (round_half_even q) - q\<bar> \<le> 1 / 2"
proof -
  have "of_int \<lfloor>q\<rfloor> \<le> q" "q < of_int \<lfloor>q\<rfloor> + 1" by linarith+
  then show ?thesis
    by (auto simp: round_half_even_def Let_def abs_le_iff)
qed

lemma round_half_even_of_int: "round_half_even (of_int k) = k"
  by (simp add: round_half_even_def)

lemma float_round_nearest:
  assumes "q \<noteq> 0"
  defines "e \<equiv> max (- 149) (floor_log2 \<bar>q\<bar> - 23)"
  shows "\<exists>m. float_round q = of_int m * 2 powi e" "\<bar>float_round q - q\<bar> \<le> 2 powi e / 2"
proof -
  have fr: "float_round q = of_int (round_half_even (q / 2 powi e)) * 2 powi e"
    using assms(1) by (simp add: float_round_def e_def Let_def)
  then show "\<exists>m. float_round q = of_int m * 2 powi e" by blast
  have p: "(0::rat) < 2 powi e" by simp
  have "float_round q - q = (of_int (round_half_even (q / 2 powi e)) - q / 2 powi e) * 2 powi e"
    using p by (simp add: fr algebra_simps)
  then have "\<bar>float_round q - q\<bar> = \<bar>of_int (round_half_even (q / 2 powi e)) - q / 2 powi e\<bar> * 2 powi e"
    using p by (simp add: abs_mult)
  also have "\<dots> \<le> 1 / 2 * 2 powi e"
    using round_half_even_nearest [of "q / 2 powi e"] p by (intro mult_right_mono) simp_all
  finally show "\<bar>float_round q - q\<bar> \<le> 2 powi e / 2" by simp
qed

lemma float_round_exact:
  assumes "\<bar>m\<bar> < 2 ^ 24" "- 149 \<le> e"
  shows "float_round (of_int m * 2 powi e) = of_int m * 2 powi e"
proof (cases "m = 0")
  case True
  then show ?thesis by (simp add: float_round_def)
next
  case False
  define q :: rat where "q = of_int m * 2 powi e"
  define l where "l = floor_log2 \<bar>q\<bar>"
  define e' where "e' = max (- 149) (l - 23)"
  from False have q0: "q \<noteq> 0" "0 < \<bar>q\<bar>" by (simp_all add: q_def)
  have "\<bar>q\<bar> = of_int \<bar>m\<bar> * 2 powi e" by (simp add: q_def abs_mult)
  also have "\<dots> < of_int (2 ^ 24) * 2 powi e"
    using assms(1) unfolding of_int_less_iff [symmetric, where ?'a = rat]
    by (intro mult_strict_right_mono) simp_all
  also have "\<dots> = 2 powi (24 + e)" by (simp add: power_int_add)
  finally have "\<bar>q\<bar> < 2 powi (24 + e)" .
  with floor_log2_bounds(1) [OF q0(2)] have "(2::rat) powi l < 2 powi (24 + e)"
    unfolding l_def by linarith
  then have "l < 24 + e"
    using power_int_increasing [of "24 + e" l "2::rat"] by (cases "l < 24 + e") simp_all
  with assms(2) have le: "e' \<le> e" by (simp add: e'_def)
  have "q / 2 powi e' = of_int m * 2 powi (e - e')"
    by (simp add: q_def power_int_diff)
  also have "\<dots> = of_int (m * 2 ^ nat (e - e'))"
    using le by (simp add: power_int_def)
  finally have "round_half_even (q / 2 powi e') = m * 2 ^ nat (e - e')"
    by (simp only: round_half_even_of_int)
  then have "float_round q = of_int (m * 2 ^ nat (e - e')) * 2 powi e'"
    using q0(1) by (simp add: float_round_def e'_def l_def Let_def)
  also have "\<dots> = of_int m * (2 powi (e - e') * 2 powi e')"
    using le by (simp add: power_int_def)
  also have "\<dots> = q"
    by (simp add: q_def power_int_add [symmetric])
  finally show ?thesis by (simp add: q_def)
qed

lemma long_to_float_exact:
  assumes "\<bar>n\<bar> < 2 ^ 24"
  shows "long_to_float n = of_int n"
  using float_round_exact [OF assms, of 0] by (simp add: long_to_float_def)

text \<open>The rounding decides the auto-rehash test of \<open>HashTablePut\<close> at large tables:
  31457296 elements in 2097153 buckets are more than 15 to a bucket, and the quotient of
  the test is 15; 251658255 elements in 16777217 buckets are 15 to a bucket, and the
  quotient of the test is above 15.\<close>

lemma element_to_bucket_ratio_rounding:
  "float_div (long_to_float 31457296) (long_to_float 2097153) = 15"
  "float_div (long_to_float 251658255) (long_to_float 16777217) = 15 + 1 / 2 ^ 20"
  by code_simp+

subsection \<open>The ideal number of buckets\<close>

lemma calculateIdealNumOfBuckets_result:
  "\<exists>j. calculateIdealNumOfBuckets t = Some (firstCandidate t + 2 * int j) \<and>
       isProbablePrime (firstCandidate t + 2 * int j) \<noteq> 0 \<and>
       (\<forall>j'<j. isProbablePrime (firstCandidate t + 2 * int j') = 0)"
proof -
  from probable_prime_exists [OF odd_firstCandidate]
  obtain j0 where "isProbablePrime (firstCandidate t + 2 * int j0) \<noteq> 0" ..
  from searchProbablePrime_reaches [OF this] show ?thesis
    unfolding calculateIdealNumOfBuckets_def by blast
qed

lemma calculateIdealNumOfBuckets_in_long:
  assumes "firstCandidate t \<le> 9223372036854775783"
    and "calculateIdealNumOfBuckets t = Some r"
  shows "r \<le> 9223372036854775783"
proof -
  define M :: int where "M = 9223372036854775783"
  have "even (M - firstCandidate t)"
    using odd_firstCandidate [of t] by (simp add: M_def)
  then obtain d where d: "M - firstCandidate t = 2 * d" by (elim evenE)
  with assms(1) have "0 \<le> d" by (simp add: M_def)
  with d have "firstCandidate t + 2 * int (nat d) = M" by simp
  then have "isProbablePrime (firstCandidate t + 2 * int (nat d)) \<noteq> 0"
    using last_prime_below_long_max by (simp add: M_def)
  from searchProbablePrime_reaches [OF this] obtain i
    where i: "i \<le> nat d"
      "searchProbablePrime (firstCandidate t) = Some (firstCandidate t + 2 * int i)"
    by blast
  from i(2) assms(2) have "r = firstCandidate t + 2 * int i"
    by (simp add: calculateIdealNumOfBuckets_def)
  moreover from i(1) \<open>0 \<le> d\<close> have "int i \<le> d" by linarith
  ultimately have "r \<le> M" using d by linarith
  then show ?thesis by (simp add: M_def)
qed

text \<open>
  C6, as stated, fails. The quotient of the element count by the ideal ratio is computed in
  single precision, and it is this quotient that is truncated, not the exact one. With
  16777223 elements (more than \<open>2^24\<close>) and the ideal ratio 3.0 of \<open>HashTableCreate\<close>,
  the element count converts to the \<open>float\<close> 16777224, the quotient is 5592408, and the
  search starts at 5592409, which the test accepts. The floor of the exact quotient is
  5592407, which is odd and which the test accepts too: started from there, the search
  would return 5592407. \<open>calculateIdealNumOfBuckets\<close> reads the element count and the
  ideal ratio only (\<open>calculateIdealNumOfBuckets_cong\<close>), so every table with these two
  values behaves as the one below.
\<close>

theorem idealBucketCount_not_from_exact_floor:
  "numOfElements (exampleTable\<lparr>numOfElements := 16777223\<rparr>) = 16777223 \<and>
   idealRatio (exampleTable\<lparr>numOfElements := 16777223\<rparr>) = 3 \<and>
   long_to_float 16777223 = 16777224 \<and>
   float_div 16777224 3 = 5592408 \<and>
   calculateIdealNumOfBuckets (exampleTable\<lparr>numOfElements := 16777223\<rparr>) = Some 5592409 \<and>
   spec_start 16777223 3 = 5592407 \<and>
   isProbablePrime 5592407 \<noteq> 0"
proof -
  have 1: "numOfElements (exampleTable\<lparr>numOfElements := 16777223\<rparr>) = 16777223"
    by simp
  have 2: "idealRatio (exampleTable\<lparr>numOfElements := 16777223\<rparr>) = 3"
    by (simp add: exampleTable_def)
  have 3: "long_to_float 16777223 = 16777224"
    by code_simp
  have 4: "float_div 16777224 3 = 5592408"
    by code_simp
  have 5: "calculateIdealNumOfBuckets (exampleTable\<lparr>numOfElements := 16777223\<rparr>) =
      Some 5592409"
    by code_simp
  have 6: "spec_start 16777223 3 = 5592407"
    by code_simp
  have 7: "isProbablePrime 5592407 \<noteq> 0"
    by code_simp
  from 1 2 3 4 5 6 7 show ?thesis
    by blast
qed

text \<open>
  C6, amended: for every element count at least 0 and every positive ideal ratio, the ideal
  bucket count is an odd number, at least 5, that no odd number from 3 to 49 other than
  itself divides; when the quotient of the element count by the ratio, computed in single
  precision (the element count converted to \<open>float\<close>, the division rounded to
  \<open>float\<close>), is below \<open>2^63\<close>, the result is the first number to pass the
  probable-prime test when one advances by 2 from the floor of that quotient, clamped to 5
  when below 5 and otherwise made odd.
\<close>

theorem idealBucketCount_odd_probable_prime:
  assumes "0 \<le> numOfElements t" and "0 < idealRatio t"
  shows "\<exists>r. calculateIdealNumOfBuckets t = Some r \<and> odd r \<and> 5 \<le> r \<and>
           (\<forall>i \<in> {3..49}. odd i \<longrightarrow> i dvd r \<longrightarrow> r = i) \<and>
           (float_div (long_to_float (numOfElements t)) (idealRatio t) < 2 ^ 63 \<longrightarrow>
              (\<exists>j. r = float_start (numOfElements t) (idealRatio t) + 2 * int j \<and>
                 isProbablePrime r \<noteq> 0 \<and>
                 (\<forall>j'<j. isProbablePrime
                            (float_start (numOfElements t) (idealRatio t) + 2 * int j') = 0)))"
proof -
  from calculateIdealNumOfBuckets_result [of t] obtain j where j:
    "calculateIdealNumOfBuckets t = Some (firstCandidate t + 2 * int j)"
    "isProbablePrime (firstCandidate t + 2 * int j) \<noteq> 0"
    "\<forall>j'<j. isProbablePrime (firstCandidate t + 2 * int j') = 0"
    by blast
  define r where "r = firstCandidate t + 2 * int j"
  have "odd r"
    using odd_firstCandidate [of t] by (simp add: r_def)
  moreover have "5 \<le> r"
    using firstCandidate_ge_5 [of t] by (simp add: r_def)
  moreover have "\<forall>i \<in> {3..49}. odd i \<longrightarrow> i dvd r \<longrightarrow> r = i"
    using j(2) unfolding r_def isProbablePrime_iff spec_probable_prime_def .
  moreover have "\<exists>j. r = float_start (numOfElements t) (idealRatio t) + 2 * int j \<and>
      isProbablePrime r \<noteq> 0 \<and>
      (\<forall>j'<j. isProbablePrime
                 (float_start (numOfElements t) (idealRatio t) + 2 * int j') = 0)"
    if "float_div (long_to_float (numOfElements t)) (idealRatio t) < 2 ^ 63"
  proof -
    have s: "firstCandidate t = float_start (numOfElements t) (idealRatio t)"
      using assms that by (rule firstCandidate_eq_float_start)
    from j(2,3) show ?thesis
      unfolding r_def s by (intro exI [of _ j]) simp
  qed
  ultimately show ?thesis
    using j(1) unfolding r_def [symmetric] by blast
qed

theorem idealBucketCount_odd_probable_prime_witness:
  "0 \<le> numOfElements (exampleTable\<lparr>numOfElements := 100\<rparr>) \<and>
   0 < idealRatio (exampleTable\<lparr>numOfElements := 100\<rparr>) \<and>
   float_div (long_to_float 100) 3 < 2 ^ 63 \<and>
   float_start 100 3 = 33 \<and>
   calculateIdealNumOfBuckets (exampleTable\<lparr>numOfElements := 100\<rparr>) = Some 37 \<and>
   (\<exists>r. calculateIdealNumOfBuckets (exampleTable\<lparr>numOfElements := 100\<rparr>) = Some r \<and>
      odd r \<and> 5 \<le> r \<and> (\<forall>i \<in> {3..49}. odd i \<longrightarrow> i dvd r \<longrightarrow> r = i) \<and>
      (\<exists>j. r = float_start 100 3 + 2 * int j \<and> isProbablePrime r \<noteq> 0 \<and>
         (\<forall>j'<j. isProbablePrime (float_start 100 3 + 2 * int j') = 0)))"
proof -
  have 1: "0 \<le> numOfElements (exampleTable\<lparr>numOfElements := 100\<rparr>)"
    by (simp add: exampleTable_def)
  have 2: "0 < idealRatio (exampleTable\<lparr>numOfElements := 100\<rparr>)"
    by (simp add: exampleTable_def)
  have 3: "float_div (long_to_float 100) 3 < 2 ^ 63"
    by code_simp
  have 4: "float_start 100 3 = 33"
    by code_simp
  have 5: "calculateIdealNumOfBuckets (exampleTable\<lparr>numOfElements := 100\<rparr>) = Some 37"
    by code_simp
  have 6: "numOfElements (exampleTable\<lparr>numOfElements := 100\<rparr>) = 100"
    "idealRatio (exampleTable\<lparr>numOfElements := 100\<rparr>) = 3"
    by (simp_all add: exampleTable_def)
  from idealBucketCount_odd_probable_prime [OF 1 2] 3
  have "\<exists>r. calculateIdealNumOfBuckets (exampleTable\<lparr>numOfElements := 100\<rparr>) = Some r \<and>
      odd r \<and> 5 \<le> r \<and> (\<forall>i \<in> {3..49}. odd i \<longrightarrow> i dvd r \<longrightarrow> r = i) \<and>
      (\<exists>j. r = float_start 100 3 + 2 * int j \<and> isProbablePrime r \<noteq> 0 \<and>
         (\<forall>j'<j. isProbablePrime (float_start 100 3 + 2 * int j') = 0))"
    unfolding 6 by blast
  with 1 2 3 4 5 show ?thesis
    by blast
qed

text \<open>
  C10: for every element count at least 0 and every positive ideal ratio, the search for
  the bucket count ends: the loop that advances the odd candidate by 2 returns after
  finitely many steps, with a candidate that the probable-prime test accepts. The
  candidates stay in the range of \<open>long\<close> when the first one is at most
  \<open>2^63 - 25\<close>, which the test accepts.
\<close>

theorem idealBucketCount_terminates:
  assumes "0 \<le> numOfElements t" and "0 < idealRatio t"
  shows "\<exists>r j. calculateIdealNumOfBuckets t = Some r \<and>
           r = firstCandidate t + 2 * int j \<and> isProbablePrime r \<noteq> 0 \<and>
           (firstCandidate t \<le> 2 ^ 63 - 25 \<longrightarrow> r \<le> 2 ^ 63 - 25)"
proof -
  from calculateIdealNumOfBuckets_result [of t] obtain j where j:
    "calculateIdealNumOfBuckets t = Some (firstCandidate t + 2 * int j)"
    "isProbablePrime (firstCandidate t + 2 * int j) \<noteq> 0"
    by blast
  have "firstCandidate t \<le> 2 ^ 63 - 25 \<longrightarrow> firstCandidate t + 2 * int j \<le> 2 ^ 63 - 25"
    using calculateIdealNumOfBuckets_in_long [OF _ j(1)] by simp
  with j show ?thesis by blast
qed

theorem idealBucketCount_terminates_witness:
  "0 \<le> numOfElements (exampleTable\<lparr>numOfElements := 1000\<rparr>) \<and>
   0 < idealRatio (exampleTable\<lparr>numOfElements := 1000\<rparr>) \<and>
   firstCandidate (exampleTable\<lparr>numOfElements := 1000\<rparr>) = 333 \<and>
   (\<exists>r j. calculateIdealNumOfBuckets (exampleTable\<lparr>numOfElements := 1000\<rparr>) = Some r \<and>
      r = 333 + 2 * int j \<and> isProbablePrime r \<noteq> 0 \<and> r \<le> 2 ^ 63 - 25)"
proof -
  have 1: "0 \<le> numOfElements (exampleTable\<lparr>numOfElements := 1000\<rparr>)"
    by (simp add: exampleTable_def)
  have 2: "0 < idealRatio (exampleTable\<lparr>numOfElements := 1000\<rparr>)"
    by (simp add: exampleTable_def)
  have 3: "firstCandidate (exampleTable\<lparr>numOfElements := 1000\<rparr>) = 333"
    by code_simp
  from idealBucketCount_terminates [OF 1 2] 1 2 3 show ?thesis
    by simp
qed

subsection \<open>Rehashing\<close>

lemma mset_concat_cons_update:
  assumes "i < length xss"
  shows "mset (concat (xss[i := x # xss ! i])) = add_mset x (mset (concat xss))"
proof -
  from mset_concat_update [OF assms, of "x # xss ! i"]
  have "mset (concat (xss[i := x # xss ! i])) + mset (xss ! i) =
        add_mset x (mset (concat xss)) + mset (xss ! i)"
    by simp
  then show ?thesis by simp
qed

lemma length_concat_update:
  assumes "i < length xss"
  shows "length (concat (xss[i := c])) + length (xss ! i) = length (concat xss) + length c"
proof -
  have "size (mset (concat (xss[i := c])) + mset (xss ! i)) = size (mset (concat xss) + mset c)"
    using mset_concat_update [OF assms, of c] by simp
  then show ?thesis by simp
qed

lemma rehashChain_length:
  "length (rehashChain h n c new) = length new"
  by (induction c arbitrary: new) (auto simp: Let_def)

lemma rehashChain_mset:
  "0 < n \<Longrightarrow> length new = nat n \<Longrightarrow>
   mset (concat (rehashChain h n c new)) = mset c + mset (concat new)"
proof (induction c arbitrary: new)
  case Nil
  then show ?case by simp
next
  case (Cons p c)
  define hv where "hv = unat (h (key p)) mod nat n"
  have hv: "hv < length new"
    using Cons.prems by (simp add: hv_def)
  have "mset (concat (rehashChain h n c (new[hv := p # new ! hv]))) =
        mset c + mset (concat (new[hv := p # new ! hv]))"
    using Cons.prems by (intro Cons.IH) simp_all
  also have "\<dots> = mset c + add_mset p (mset (concat new))"
    using hv by (simp only: mset_concat_cons_update)
  finally show ?case by (simp add: hv_def Let_def)
qed

lemma rehashChain_placed:
  assumes "0 < n" "length new = nat n"
    and "\<forall>i<length new. \<forall>q\<in>set (new ! i). unat (h (key q)) mod nat n = i"
    and "i < length new" "q \<in> set (rehashChain h n c new ! i)"
  shows "unat (h (key q)) mod nat n = i"
  using assms
proof (induction c arbitrary: new)
  case Nil
  then show ?case by simp
next
  case (Cons p c)
  define hv where "hv = unat (h (key p)) mod nat n"
  define new' where "new' = new[hv := p # new ! hv]"
  have hv: "hv < length new"
    using Cons.prems by (simp add: hv_def)
  have "\<forall>i<length new'. \<forall>q\<in>set (new' ! i). unat (h (key q)) mod nat n = i"
  proof (intro allI impI ballI)
    fix j q' assume j: "j < length new'" and q': "q' \<in> set (new' ! j)"
    show "unat (h (key q')) mod nat n = j"
    proof (cases "j = hv")
      case True
      with q' hv have "q' = p \<or> q' \<in> set (new ! hv)" by (simp add: new'_def)
      with True hv Cons.prems(3) show ?thesis by (auto simp: hv_def)
    next
      case False
      with j q' Cons.prems(3) show ?thesis by (simp add: new'_def)
    qed
  qed
  moreover have "length new' = nat n" using Cons.prems(2) by (simp add: new'_def)
  moreover have "i < length new'" using Cons.prems(4) by (simp add: new'_def)
  moreover have "q \<in> set (rehashChain h n c new' ! i)"
    using Cons.prems(5) by (simp add: new'_def hv_def Let_def)
  ultimately show ?case
    using Cons.prems(1) by (intro Cons.IH [of new']) 
qed

lemma fold_rehashChain_length:
  "length (fold (rehashChain h n) cs new) = length new"
  by (induction cs arbitrary: new) (auto simp: rehashChain_length)

lemma fold_rehashChain_mset:
  "0 < n \<Longrightarrow> length new = nat n \<Longrightarrow>
   mset (concat (fold (rehashChain h n) cs new)) = mset (concat cs) + mset (concat new)"
proof (induction cs arbitrary: new)
  case Nil
  then show ?case by simp
next
  case (Cons c cs)
  have "mset (concat (fold (rehashChain h n) cs (rehashChain h n c new))) =
        mset (concat cs) + mset (concat (rehashChain h n c new))"
    using Cons.prems by (intro Cons.IH) (simp_all add: rehashChain_length)
  then show ?case
    using Cons.prems by (simp add: rehashChain_mset)
qed

lemma fold_rehashChain_placed:
  assumes "0 < n" "length new = nat n"
    and "\<forall>i<length new. \<forall>q\<in>set (new ! i). unat (h (key q)) mod nat n = i"
    and "i < length new" "q \<in> set (fold (rehashChain h n) cs new ! i)"
  shows "unat (h (key q)) mod nat n = i"
  using assms
proof (induction cs arbitrary: new)
  case Nil
  then show ?case by simp
next
  case (Cons c cs)
  define new' where "new' = rehashChain h n c new"
  have "\<forall>i<length new'. \<forall>q\<in>set (new' ! i). unat (h (key q)) mod nat n = i"
    using rehashChain_placed [OF Cons.prems(1,2,3)]
    by (auto simp: new'_def rehashChain_length)
  moreover have "length new' = nat n" "i < length new'"
    using Cons.prems(2,4) by (simp_all add: new'_def rehashChain_length)
  moreover have "q \<in> set (fold (rehashChain h n) cs new' ! i)"
    using Cons.prems(5) by (simp add: new'_def)
  ultimately show ?case
    using Cons.prems(1) by (intro Cons.IH [of new'])
qed

lemma rehashBuckets_eq:
  assumes "length (bucketArray t) = nat (numOfBuckets t)"
  shows "rehashBuckets t n =
         fold (rehashChain (hashFunction t) n) (bucketArray t) (replicate (nat n) [])"
proof -
  have "map ((!) (bucketArray t)) [0..<nat (numOfBuckets t)] = bucketArray t"
    unfolding assms [symmetric] by (rule map_nth)
  then have "fold (rehashChain (hashFunction t) n) (bucketArray t) s =
        fold (rehashChain (hashFunction t) n)
          (map ((!) (bucketArray t)) [0..<nat (numOfBuckets t)]) s" for s
    by simp
  then show ?thesis
    by (simp add: rehashBuckets_def fold_map comp_def)
qed

lemma rehashBuckets_length:
  "length (bucketArray t) = nat (numOfBuckets t) \<Longrightarrow> length (rehashBuckets t n) = nat n"
  by (simp add: rehashBuckets_eq fold_rehashChain_length)

lemma rehashBuckets_mset:
  "length (bucketArray t) = nat (numOfBuckets t) \<Longrightarrow> 0 < n \<Longrightarrow>
   mset (concat (rehashBuckets t n)) = mset (entries t)"
  by (simp add: rehashBuckets_eq fold_rehashChain_mset entries_def)

lemma rehashBuckets_placed:
  assumes "length (bucketArray t) = nat (numOfBuckets t)" "0 < n"
    and "i < nat n" "q \<in> set (rehashBuckets t n ! i)"
  shows "unat (hashFunction t (key q)) mod nat n = i"
proof -
  have "q \<in> set (fold (rehashChain (hashFunction t) n) (bucketArray t) (replicate (nat n) []) ! i)"
    using assms(1,4) by (simp add: rehashBuckets_eq)
  then show ?thesis
    using assms(2,3)
    by (intro fold_rehashChain_placed [where new = "replicate (nat n) []" and cs = "bucketArray t"])
       simp_all
qed

lemma calculateIdealNumOfBuckets_Some:
  "\<exists>r. calculateIdealNumOfBuckets t = Some r \<and> 5 \<le> r"
proof -
  from calculateIdealNumOfBuckets_result [of t] obtain j
    where "calculateIdealNumOfBuckets t = Some (firstCandidate t + 2 * int j)" by blast
  moreover have "5 \<le> firstCandidate t + 2 * int j"
    using firstCandidate_ge_5 [of t] by simp
  ultimately show ?thesis by blast
qed

lemma HashTableRehash_cases:
  assumes "0 \<le> n0"
  shows "\<exists>t'. HashTableRehash arrayAllocated t n0 = Inr t' \<and>
           (t' = t \<or> (\<exists>n. 0 < n \<and> (n0 \<noteq> 0 \<longrightarrow> n = n0) \<and> n \<noteq> numOfBuckets t \<and> arrayAllocated \<and>
               t' = t\<lparr>bucketArray := rehashBuckets t n, numOfBuckets := n\<rparr>))"
proof -
  obtain n where n: "(if n0 = 0 then calculateIdealNumOfBuckets t else Some n0) = Some n"
    "0 < n" "n0 \<noteq> 0 \<longrightarrow> n = n0"
  proof (cases "n0 = 0")
    case True
    from calculateIdealNumOfBuckets_Some [of t] obtain r
      where "calculateIdealNumOfBuckets t = Some r" "5 \<le> r" by blast
    with True that [of r] show ?thesis by simp
  next
    case False
    with assms that [of n0] show ?thesis by simp
  qed
  show ?thesis
  proof (cases "n = numOfBuckets t \<or> \<not> arrayAllocated")
    case True
    with n(1) assms have "HashTableRehash arrayAllocated t n0 = Inr t"
      by (auto simp: HashTableRehash_def)
    then show ?thesis by simp
  next
    case False
    with n(1) assms have "HashTableRehash arrayAllocated t n0 =
        Inr (t\<lparr>bucketArray := rehashBuckets t n, numOfBuckets := n\<rparr>)"
      by (simp add: HashTableRehash_def)
    with False n(2,3) show ?thesis by blast
  qed
qed

lemma hashValue_less:
  "0 < numOfBuckets t \<Longrightarrow> length (bucketArray t) = nat (numOfBuckets t) \<Longrightarrow>
   hashValue t k < length (bucketArray t)"
  by (simp add: hashValue_def)

lemma rehashed_entries:
  assumes "length (bucketArray t) = nat (numOfBuckets t)" "0 < n"
  shows "mset (entries (t\<lparr>bucketArray := rehashBuckets t n, numOfBuckets := n\<rparr>)) =
         mset (entries t)"
  using assms by (simp add: entries_def rehashBuckets_mset [unfolded entries_def])

lemma rehashed_invariant:
  assumes "invariant t" "0 < n"
  shows "invariant (t\<lparr>bucketArray := rehashBuckets t n, numOfBuckets := n\<rparr>)"
proof -
  let ?t' = "t\<lparr>bucketArray := rehashBuckets t n, numOfBuckets := n\<rparr>"
  from assms(1) have len: "length (bucketArray t) = nat (numOfBuckets t)"
    and cnt: "numOfElements t = int (length (entries t))"
    and uniq: "unique_keys (keycmp t) (entries t)"
    by (simp_all add: invariant_def)
  have m: "mset (entries ?t') = mset (entries t)"
    using len assms(2) by (rule rehashed_entries)
  have "length (entries ?t') = length (entries t)"
    using m by (rule mset_eq_length)
  then have 3: "numOfElements ?t' = int (length (entries ?t'))"
    using cnt by simp
  have 2: "length (bucketArray ?t') = nat (numOfBuckets ?t')"
    using len by (simp add: rehashBuckets_length)
  have 4: "placed ?t'"
    unfolding placed_def
  proof (intro allI impI ballI)
    fix i p assume "i < length (bucketArray ?t')" "p \<in> set (bucketArray ?t' ! i)"
    then have "i < nat n" "p \<in> set (rehashBuckets t n ! i)"
      using len by (simp_all add: rehashBuckets_length)
    from rehashBuckets_placed [OF len assms(2) this]
    show "hashValue ?t' (key p) = i"
      by (simp add: hashValue_def)
  qed
  have 5: "unique_keys (keycmp ?t') (entries ?t')"
    using uniq unique_keys_mset_cong [OF m] by simp
  from assms(2) 2 3 4 5 show ?thesis
    by (simp add: invariant_def)
qed

lemma HashTableRehash_invariant:
  assumes "invariant t" "0 \<le> n0"
  shows "\<exists>t'. HashTableRehash arrayAllocated t n0 = Inr t' \<and> invariant t' \<and>
           mset (entries t') = mset (entries t) \<and>
           numOfElements t' = numOfElements t \<and>
           keycmp t' = keycmp t \<and> hashFunction t' = hashFunction t"
proof -
  from HashTableRehash_cases [OF assms(2), of arrayAllocated t] obtain t'
    where t': "HashTableRehash arrayAllocated t n0 = Inr t'"
      "t' = t \<or> (\<exists>n. 0 < n \<and> t' = t\<lparr>bucketArray := rehashBuckets t n, numOfBuckets := n\<rparr>)"
    by blast
  from t'(2) show ?thesis
  proof
    assume "t' = t"
    with t'(1) assms(1) show ?thesis by simp
  next
    assume "\<exists>n. 0 < n \<and> t' = t\<lparr>bucketArray := rehashBuckets t n, numOfBuckets := n\<rparr>"
    then obtain n where n: "0 < n" "t' = t\<lparr>bucketArray := rehashBuckets t n, numOfBuckets := n\<rparr>"
      by blast
    from assms(1) have len: "length (bucketArray t) = nat (numOfBuckets t)"
      by (simp add: invariant_def)
    from rehashed_invariant [OF assms(1) n(1)] rehashed_entries [OF len n(1)] n(2) t'(1)
    show ?thesis by simp
  qed
qed

subsection \<open>Looking a key up\<close>

lemma lookup_bucket:
  assumes "0 < numOfBuckets t" "length (bucketArray t) = nat (numOfBuckets t)"
    and "placed t" "hash_respects_keycmp t"
  shows "lookup t k = List.find (\<lambda>p. keycmp t k (key p) = 0) (bucketArray t ! hashValue t k)"
  unfolding lookup_def entries_def
proof (rule find_concat_bucket)
  show "hashValue t k < length (bucketArray t)"
    using assms(1,2) by (rule hashValue_less)
  show "\<forall>i<length (bucketArray t). i \<noteq> hashValue t k \<longrightarrow>
          (\<forall>p\<in>set (bucketArray t ! i). \<not> keycmp t k (key p) = 0)"
  proof (intro allI impI ballI notI)
    fix i p
    assume i: "i < length (bucketArray t)" "i \<noteq> hashValue t k"
      and p: "p \<in> set (bucketArray t ! i)" and e: "keycmp t k (key p) = 0"
    from e assms(4) have "hashFunction t k = hashFunction t (key p)"
      by (simp add: hash_respects_keycmp_def)
    then have "hashValue t k = hashValue t (key p)"
      by (simp add: hashValue_def)
    moreover from assms(3) i(1) p have "hashValue t (key p) = i"
      by (simp add: placed_def)
    ultimately show False using i(2) by simp
  qed
qed

lemma findPair_lookup:
  assumes "0 < numOfBuckets t" "length (bucketArray t) = nat (numOfBuckets t)"
    and "placed t" "hash_respects_keycmp t"
  shows "lookup t k =
     (case findPair (keycmp t) k (bucketArray t ! hashValue t k) of
        [] \<Rightarrow> None | p # _ \<Rightarrow> Some p)"
  using lookup_bucket [OF assms] by (simp add: find_findPair)

lemma HashTableGet_lookup:
  assumes "0 < numOfBuckets t" "length (bucketArray t) = nat (numOfBuckets t)"
    and "placed t" "hash_respects_keycmp t"
  shows "HashTableGet t k = (case lookup t k of None \<Rightarrow> NULL | Some p \<Rightarrow> val p)"
  unfolding findPair_lookup [OF assms] HashTableGet_def
  by (simp split: list.split)

lemma find_SomeD: "List.find P xs = Some x \<Longrightarrow> x \<in> set xs \<and> P x"
  by (induction xs) (auto split: if_splits)

lemma find_unique_mset_cong:
  assumes "mset xs = mset ys"
    and "\<forall>p\<in>set xs. \<forall>q\<in>set (remove1 p xs). \<not> (P p \<and> P q)"
  shows "List.find P xs = List.find P ys"
proof (cases "List.find P xs")
  case None
  then have "\<forall>x\<in>set xs. \<not> P x" by (auto simp: find_None_iff)
  moreover have "set xs = set ys" using assms(1) by (rule mset_eq_setD)
  ultimately have "List.find P ys = None" by (auto simp: find_None_iff)
  with None show ?thesis by simp
next
  case (Some p)
  then have p: "p \<in> set xs" "P p"
    by (auto dest: find_SomeD)
  have s: "set xs = set ys" using assms(1) by (rule mset_eq_setD)
  with p have "List.find P ys \<noteq> None" by (auto simp: find_None_iff)
  then obtain q where q: "List.find P ys = Some q" by blast
  then have q': "q \<in> set ys" "P q"
    by (auto dest: find_SomeD)
  have "q = p"
  proof (rule ccontr)
    assume "q \<noteq> p"
    with q'(1) s have "q \<in> set (remove1 p xs)" by simp
    with assms(2) p q'(2) show False by blast
  qed
  with Some q show ?thesis by simp
qed

lemma keycmp_sym: "keycmp_equivalence t \<Longrightarrow> keycmp t a b = 0 \<Longrightarrow> keycmp t b a = 0"
  unfolding keycmp_equivalence_def by meson

lemma keycmp_trans:
  "keycmp_equivalence t \<Longrightarrow> keycmp t a b = 0 \<Longrightarrow> keycmp t b c = 0 \<Longrightarrow> keycmp t a c = 0"
  unfolding keycmp_equivalence_def by (elim conjE) (meson)

lemma unique_match:
  assumes "keycmp_equivalence t" "unique_keys (keycmp t) xs"
    and "p \<in> set xs" "q \<in> set (remove1 p xs)"
    and "keycmp t k (key p) = 0"
  shows "keycmp t k (key q) \<noteq> 0"
proof
  assume "keycmp t k (key q) = 0"
  moreover from assms(1,5) have "keycmp t (key p) k = 0"
    by (rule keycmp_sym)
  ultimately have "keycmp t (key p) (key q) = 0"
    using assms(1) keycmp_trans by blast
  moreover have "keycmp t (key p) (key q) \<noteq> 0"
    using assms(2,3,4) unfolding unique_keys_def by blast
  ultimately show False by simp
qed

lemma find_key_mset_cong:
  assumes "keycmp_equivalence t" "unique_keys (keycmp t) xs" "mset xs = mset ys"
  shows "List.find (\<lambda>p. keycmp t k (key p) = 0) xs = List.find (\<lambda>p. keycmp t k (key p) = 0) ys"
  using assms(3)
proof (rule find_unique_mset_cong)
  show "\<forall>p\<in>set xs. \<forall>q\<in>set (remove1 p xs). \<not> (keycmp t k (key p) = 0 \<and> keycmp t k (key q) = 0)"
    using unique_match [OF assms(1,2)] by blast
qed

lemma find_remove1_other:
  "\<not> P p \<Longrightarrow> List.find P (remove1 p xs) = List.find P xs"
  by (induction xs) auto

subsection \<open>Storing, adding and unlinking a node\<close>

lemma set_storePair_subset:
  "set (storePair cmp k v c) \<subseteq> insert \<lparr>key = k, val = v\<rparr> (set c)"
  by (induction c) auto

lemma set_unlinkPair_subset: "set (unlinkPair cmp k c) \<subseteq> set c"
  by (induction c) auto

lemma mset_move_single:
  assumes "p \<in># E" "p \<in># C"
  shows "E - {#p#} + C = E + (C - {#p#})"
proof -
  from assms obtain E0 C0 where "E = add_mset p E0" "C = add_mset p C0"
    by (meson multi_member_split)
  then show ?thesis by simp
qed

lemma bucket_in_entries:
  "i < length (bucketArray t) \<Longrightarrow> p \<in> set (bucketArray t ! i) \<Longrightarrow> p \<in> set (entries t)"
  unfolding entries_def by (auto intro: nth_mem)

lemma placed_update:
  assumes "placed t" "hv < length (bucketArray t)"
    and "\<forall>p\<in>set c. p \<in> set (bucketArray t ! hv) \<or> hashValue t (key p) = hv"
    and "hashFunction t' = hashFunction t" "numOfBuckets t' = numOfBuckets t"
    and "bucketArray t' = (bucketArray t)[hv := c]"
  shows "placed t'"
  unfolding placed_def
proof (intro allI impI ballI)
  fix i p assume i: "i < length (bucketArray t')" and p: "p \<in> set (bucketArray t' ! i)"
  have h: "hashValue t' x = hashValue t x" for x
    using assms(4,5) by (simp add: hashValue_def)
  show "hashValue t' (key p) = i"
  proof (cases "i = hv")
    case True
    with p assms(2,6) have "p \<in> set c" by simp
    with assms(3) have "p \<in> set (bucketArray t ! hv) \<or> hashValue t (key p) = hv" by blast
    with assms(1,2) True show ?thesis by (auto simp: placed_def h)
  next
    case False
    with i p assms(6) have "i < length (bucketArray t)" "p \<in> set (bucketArray t ! i)"
      by simp_all
    with assms(1) show ?thesis by (simp add: placed_def h)
  qed
qed

text \<open>The table after a node for a new key has been linked in front of its chain.\<close>

lemma added_invariant:
  fixes v :: ptr
  assumes inv: "invariant t" and eq: "keycmp_equivalence t" and hr: "hash_respects_keycmp t"
    and nf: "findPair (keycmp t) k (bucketArray t ! hashValue t k) = []"
  defines "t' \<equiv> t\<lparr>bucketArray := (bucketArray t)
                      [hashValue t k := \<lparr>key = k, val = v\<rparr> # bucketArray t ! hashValue t k],
                    numOfElements := numOfElements t + 1\<rparr>"
  shows "invariant t' \<and> mset (entries t') = add_mset \<lparr>key = k, val = v\<rparr> (mset (entries t))"
proof -
  from inv have pos: "0 < numOfBuckets t" and len: "length (bucketArray t) = nat (numOfBuckets t)"
    and cnt: "numOfElements t = int (length (entries t))" and pl: "placed t"
    and uniq: "unique_keys (keycmp t) (entries t)"
    by (simp_all add: invariant_def)
  have hv: "hashValue t k < length (bucketArray t)"
    using pos len by (rule hashValue_less)
  have m: "mset (entries t') = add_mset \<lparr>key = k, val = v\<rparr> (mset (entries t))"
    using hv by (simp add: t'_def entries_def mset_concat_cons_update)
  have "length (entries t') = Suc (length (entries t))"
    using m by (metis size_mset size_add_mset)
  then have 3: "numOfElements t' = int (length (entries t'))"
    using cnt by (simp add: t'_def)
  have 4: "placed t'"
    using pl hv
  proof (rule placed_update)
    show "\<forall>p\<in>set (\<lparr>key = k, val = v\<rparr> # bucketArray t ! hashValue t k).
            p \<in> set (bucketArray t ! hashValue t k) \<or> hashValue t (key p) = hashValue t k"
      by auto
  qed (simp_all add: t'_def)
  have none: "lookup t k = None"
    using findPair_lookup [OF pos len pl hr, of k] nf by simp
  have ne: "\<forall>q\<in>set (entries t). keycmp t k (key q) \<noteq> 0 \<and> keycmp t (key q) k \<noteq> 0"
  proof
    fix q assume q: "q \<in> set (entries t)"
    with none have 1: "keycmp t k (key q) \<noteq> 0"
      by (auto simp: lookup_def find_None_iff)
    then have "keycmp t (key q) k \<noteq> 0"
      using keycmp_sym [OF eq, of "key q" k] by blast
    with 1 show "keycmp t k (key q) \<noteq> 0 \<and> keycmp t (key q) k \<noteq> 0" ..
  qed
  have "unique_keys (keycmp t) (\<lparr>key = k, val = v\<rparr> # entries t)"
    using ne uniq by (simp add: unique_keys_Cons)
  moreover have "mset (entries t') = mset (\<lparr>key = k, val = v\<rparr> # entries t)"
    using m by simp
  ultimately have 5: "unique_keys (keycmp t') (entries t')"
    using unique_keys_mset_cong [of "entries t'" "\<lparr>key = k, val = v\<rparr> # entries t" "keycmp t"]
    by (simp add: t'_def)
  have "0 < numOfBuckets t'" "length (bucketArray t') = nat (numOfBuckets t')"
    using pos len by (simp_all add: t'_def)
  with 3 4 5 m show ?thesis by (simp add: invariant_def)
qed

text \<open>The table after the node found for a key has been given the key and the value of
  the call.\<close>

lemma stored_invariant:
  fixes v :: ptr
  assumes inv: "invariant t" and eq: "keycmp_equivalence t" and hr: "hash_respects_keycmp t"
    and f: "findPair (keycmp t) k (bucketArray t ! hashValue t k) = p # r"
  defines "t' \<equiv> t\<lparr>bucketArray := (bucketArray t)
                      [hashValue t k := storePair (keycmp t) k v (bucketArray t ! hashValue t k)]\<rparr>"
  shows "invariant t' \<and>
         mset (entries t') = add_mset \<lparr>key = k, val = v\<rparr> (mset (entries t) - {#p#}) \<and>
         p \<in> set (entries t) \<and> keycmp t k (key p) = 0"
proof -
  let ?c = "bucketArray t ! hashValue t k"
  let ?new = "\<lparr>key = k, val = v\<rparr>"
  from inv have pos: "0 < numOfBuckets t" and len: "length (bucketArray t) = nat (numOfBuckets t)"
    and cnt: "numOfElements t = int (length (entries t))" and pl: "placed t"
    and uniq: "unique_keys (keycmp t) (entries t)"
    by (simp_all add: invariant_def)
  have hv: "hashValue t k < length (bucketArray t)"
    using pos len by (rule hashValue_less)
  from f have pc: "p \<in> set ?c" and pk: "keycmp t k (key p) = 0"
    by (auto dest: findPair_ConsD)
  from hv pc have pe: "p \<in> set (entries t)" by (rule bucket_in_entries)
  have mc: "mset (storePair (keycmp t) k v ?c) = add_mset ?new (mset ?c - {#p#})"
    using f by (simp add: mset_storePair)
  have "mset (entries t') + mset ?c = mset (entries t) + add_mset ?new (mset ?c - {#p#})"
    using mset_concat_update [OF hv, of "storePair (keycmp t) k v ?c"] mc
    by (simp add: t'_def entries_def)
  also have "\<dots> = add_mset ?new (mset (entries t) + (mset ?c - {#p#}))"
    by simp
  also have "mset (entries t) + (mset ?c - {#p#}) = mset (entries t) - {#p#} + mset ?c"
    using pe pc by (simp add: mset_move_single)
  finally have "mset (entries t') + mset ?c =
      add_mset ?new (mset (entries t) - {#p#}) + mset ?c"
    by simp
  then have m: "mset (entries t') = add_mset ?new (mset (entries t) - {#p#})"
    by simp
  have pos_len: "0 < length (entries t)" using pe by (cases "entries t") auto
  have "size (mset (entries t')) = size (mset (entries t))"
    unfolding m using pe pos_len by (simp add: size_Diff_singleton)
  then have 3: "numOfElements t' = int (length (entries t'))"
    using cnt by (simp add: t'_def)
  have 4: "placed t'"
    using pl hv
  proof (rule placed_update)
    show "\<forall>q\<in>set (storePair (keycmp t) k v ?c). q \<in> set ?c \<or> hashValue t (key q) = hashValue t k"
      using set_storePair_subset [of "keycmp t" k v ?c] by auto
  qed (simp_all add: t'_def)
  have ne: "\<forall>q\<in>set (remove1 p (entries t)). keycmp t k (key q) \<noteq> 0 \<and> keycmp t (key q) k \<noteq> 0"
  proof
    fix q assume q: "q \<in> set (remove1 p (entries t))"
    from eq uniq pe q pk have 1: "keycmp t k (key q) \<noteq> 0" by (rule unique_match)
    then have "keycmp t (key q) k \<noteq> 0"
      using keycmp_sym [OF eq, of "key q" k] by blast
    with 1 show "keycmp t k (key q) \<noteq> 0 \<and> keycmp t (key q) k \<noteq> 0" ..
  qed
  have "unique_keys (keycmp t) (remove1 p (entries t))"
    using uniq by (rule unique_keys_submset) simp
  with ne have "unique_keys (keycmp t) (?new # remove1 p (entries t))"
    by (simp add: unique_keys_Cons)
  moreover have "mset (entries t') = mset (?new # remove1 p (entries t))"
    using m by simp
  ultimately have 5: "unique_keys (keycmp t') (entries t')"
    using unique_keys_mset_cong [of "entries t'" "?new # remove1 p (entries t)" "keycmp t"]
    by (simp add: t'_def)
  have "0 < numOfBuckets t'" "length (bucketArray t') = nat (numOfBuckets t')"
    using pos len by (simp_all add: t'_def)
  with 3 4 5 m pe pk show ?thesis by (simp add: invariant_def)
qed

text \<open>The table after the node found for a key has been unlinked.\<close>

lemma unlinked_invariant:
  assumes inv: "invariant t"
    and f: "findPair (keycmp t) k (bucketArray t ! hashValue t k) = p # r"
  defines "t' \<equiv> t\<lparr>bucketArray := (bucketArray t)
                      [hashValue t k := unlinkPair (keycmp t) k (bucketArray t ! hashValue t k)],
                    numOfElements := numOfElements t - 1\<rparr>"
  shows "invariant t' \<and> mset (entries t') = mset (entries t) - {#p#} \<and>
         p \<in> set (entries t) \<and> keycmp t k (key p) = 0"
proof -
  let ?c = "bucketArray t ! hashValue t k"
  from inv have pos: "0 < numOfBuckets t" and len: "length (bucketArray t) = nat (numOfBuckets t)"
    and cnt: "numOfElements t = int (length (entries t))" and pl: "placed t"
    and uniq: "unique_keys (keycmp t) (entries t)"
    by (simp_all add: invariant_def)
  have hv: "hashValue t k < length (bucketArray t)"
    using pos len by (rule hashValue_less)
  from f have pc: "p \<in> set ?c" and pk: "keycmp t k (key p) = 0"
    by (auto dest: findPair_ConsD)
  from hv pc have pe: "p \<in> set (entries t)" by (rule bucket_in_entries)
  have mc: "mset (unlinkPair (keycmp t) k ?c) = mset ?c - {#p#}"
    using f by (simp add: mset_unlinkPair)
  have "mset (entries t') + mset ?c = mset (entries t) + (mset ?c - {#p#})"
    using mset_concat_update [OF hv, of "unlinkPair (keycmp t) k ?c"] mc
    by (simp add: t'_def entries_def)
  also have "\<dots> = mset (entries t) - {#p#} + mset ?c"
    using pe pc by (simp add: mset_move_single)
  finally have m: "mset (entries t') = mset (entries t) - {#p#}"
    by simp
  have "size (mset (entries t')) = size (mset (entries t)) - 1"
    unfolding m using pe by (simp add: size_Diff_singleton)
  moreover have "0 < length (entries t)" using pe by (cases "entries t") auto
  ultimately have "int (length (entries t')) = int (length (entries t)) - 1"
    by (cases "entries t") simp_all
  then have 3: "numOfElements t' = int (length (entries t'))"
    using cnt by (simp add: t'_def)
  have 4: "placed t'"
    using pl hv
  proof (rule placed_update)
    show "\<forall>q\<in>set (unlinkPair (keycmp t) k ?c). q \<in> set ?c \<or> hashValue t (key q) = hashValue t k"
      using set_unlinkPair_subset [of "keycmp t" k ?c] by auto
  qed (simp_all add: t'_def)
  have "unique_keys (keycmp t) (entries t')"
    using uniq by (rule unique_keys_submset) (simp add: m)
  then have 5: "unique_keys (keycmp t') (entries t')"
    by (simp add: t'_def)
  have "0 < numOfBuckets t'" "length (bucketArray t') = nat (numOfBuckets t')"
    using pos len by (simp_all add: t'_def)
  with 3 4 5 m pe pk show ?thesis by (simp add: invariant_def)
qed

subsection \<open>Put and remove\<close>

lemma HashTablePut_result:
  assumes inv: "invariant t" and eq: "keycmp_equivalence t" and hr: "hash_respects_keycmp t"
    and nn: "k \<noteq> NULL" "v \<noteq> NULL"
  shows "\<exists>rc t' eff. HashTablePut pairAllocated arrayAllocated t k v = Inr (rc, t', eff) \<and>
     invariant t' \<and> keycmp t' = keycmp t \<and> hashFunction t' = hashFunction t \<and>
     (case lookup t k of
        Some p \<Rightarrow> rc = 0 \<and> numOfElements t' = numOfElements t \<and>
          p \<in> set (entries t) \<and> keycmp t k (key p) = 0 \<and>
          mset (entries t') = add_mset \<lparr>key = k, val = v\<rparr> (mset (entries t) - {#p#})
      | None \<Rightarrow>
          if pairAllocated
          then rc = 0 \<and> numOfElements t' = numOfElements t + 1 \<and>
               mset (entries t') = add_mset \<lparr>key = k, val = v\<rparr> (mset (entries t))
          else rc = - 1 \<and> t' = t \<and> eff = [])"
proof -
  from inv have pos: "0 < numOfBuckets t" and len: "length (bucketArray t) = nat (numOfBuckets t)"
    and pl: "placed t"
    by (simp_all add: invariant_def)
  note lk = findPair_lookup [OF pos len pl hr, of k]
  show ?thesis
  proof (cases "findPair (keycmp t) k (bucketArray t ! hashValue t k)")
    case Nil
    with lk have none: "lookup t k = None" by simp
    show ?thesis
    proof (cases pairAllocated)
      case False
      with Nil nn have "HashTablePut pairAllocated arrayAllocated t k v = Inr (- 1, t, [])"
        by (simp add: HashTablePut_def Let_def)
      with False none inv show ?thesis by simp
    next
      case True
      define t1 where "t1 = t\<lparr>bucketArray := (bucketArray t)
          [hashValue t k := \<lparr>key = k, val = v\<rparr> # bucketArray t ! hashValue t k],
          numOfElements := numOfElements t + 1\<rparr>"
      from added_invariant [OF inv eq hr Nil, of v]
      have t1: "invariant t1" "mset (entries t1) = add_mset \<lparr>key = k, val = v\<rparr> (mset (entries t))"
        by (simp_all add: t1_def)
      have f1: "keycmp t1 = keycmp t" "hashFunction t1 = hashFunction t"
        "numOfElements t1 = numOfElements t + 1"
        by (simp_all add: t1_def)
      show ?thesis
      proof (cases "upperRehashThreshold t1 > idealRatio t1 \<and>
          float_div (long_to_float (numOfElements t1)) (long_to_float (numOfBuckets t1))
            > upperRehashThreshold t1")
        case False
        with Nil nn True have "HashTablePut pairAllocated arrayAllocated t k v = Inr (0, t1, [])"
          unfolding HashTablePut_def Let_def t1_def [symmetric] by auto
        with True none t1 f1 show ?thesis by simp
      next
        case rh: True
        from HashTableRehash_invariant [OF t1(1), of 0 arrayAllocated] obtain t2
          where t2: "HashTableRehash arrayAllocated t1 0 = Inr t2" "invariant t2"
            "mset (entries t2) = mset (entries t1)" "numOfElements t2 = numOfElements t1"
            "keycmp t2 = keycmp t1" "hashFunction t2 = hashFunction t1"
          by auto
        with rh Nil nn True have "HashTablePut pairAllocated arrayAllocated t k v = Inr (0, t2, [])"
          unfolding HashTablePut_def Let_def t1_def [symmetric] by auto
        with True none t1 f1 t2 show ?thesis by simp
      qed
    qed
  next
    case (Cons p r)
    with lk have some: "lookup t k = Some p" by simp
    define t1 where "t1 = t\<lparr>bucketArray := (bucketArray t)
        [hashValue t k := storePair (keycmp t) k v (bucketArray t ! hashValue t k)]\<rparr>"
    from stored_invariant [OF inv eq hr Cons, of v]
    have t1: "invariant t1"
      "mset (entries t1) = add_mset \<lparr>key = k, val = v\<rparr> (mset (entries t) - {#p#})"
      "p \<in> set (entries t)" "keycmp t k (key p) = 0"
      by (simp_all add: t1_def)
    have f1: "keycmp t1 = keycmp t" "hashFunction t1 = hashFunction t"
      "numOfElements t1 = numOfElements t"
      by (simp_all add: t1_def)
    from Cons nn have "\<exists>eff. HashTablePut pairAllocated arrayAllocated t k v = Inr (0, t1, eff)"
      by (simp add: HashTablePut_def Let_def t1_def)
    with some t1 f1 show ?thesis by auto
  qed
qed

lemma HashTableRemove_result:
  assumes inv: "invariant t" and hr: "hash_respects_keycmp t"
  shows "\<exists>t' eff. HashTableRemove arrayAllocated t k = Inr (t', eff) \<and>
     invariant t' \<and> keycmp t' = keycmp t \<and> hashFunction t' = hashFunction t \<and>
     (case lookup t k of
        Some p \<Rightarrow> numOfElements t' = numOfElements t - 1 \<and> eff = releasePair t p \<and>
          p \<in> set (entries t) \<and> keycmp t k (key p) = 0 \<and>
          mset (entries t') = mset (entries t) - {#p#}
      | None \<Rightarrow> t' = t \<and> eff = [])"
proof -
  from inv have pos: "0 < numOfBuckets t" and len: "length (bucketArray t) = nat (numOfBuckets t)"
    and pl: "placed t"
    by (simp_all add: invariant_def)
  note lk = findPair_lookup [OF pos len pl hr, of k]
  show ?thesis
  proof (cases "findPair (keycmp t) k (bucketArray t ! hashValue t k)")
    case Nil
    with lk have none: "lookup t k = None" by simp
    from Nil have "HashTableRemove arrayAllocated t k = Inr (t, [])"
      by (simp add: HashTableRemove_def Let_def)
    with none inv show ?thesis by simp
  next
    case (Cons p r)
    with lk have some: "lookup t k = Some p" by simp
    define t1 where "t1 = t\<lparr>bucketArray := (bucketArray t)
        [hashValue t k := unlinkPair (keycmp t) k (bucketArray t ! hashValue t k)],
        numOfElements := numOfElements t - 1\<rparr>"
    from unlinked_invariant [OF inv Cons]
    have t1: "invariant t1" "mset (entries t1) = mset (entries t) - {#p#}"
      "p \<in> set (entries t)" "keycmp t k (key p) = 0"
      by (simp_all add: t1_def)
    have f1: "keycmp t1 = keycmp t" "hashFunction t1 = hashFunction t"
      "numOfElements t1 = numOfElements t - 1"
      by (simp_all add: t1_def)
    show ?thesis
    proof (cases "lowerRehashThreshold t1 > 0 \<and>
        float_div (long_to_float (numOfElements t1)) (long_to_float (numOfBuckets t1))
          < lowerRehashThreshold t1")
      case False
      with Cons have "HashTableRemove arrayAllocated t k = Inr (t1, releasePair t p)"
        unfolding HashTableRemove_def Let_def t1_def [symmetric] by auto
      with some t1 f1 show ?thesis by simp
    next
      case rh: True
      from HashTableRehash_invariant [OF t1(1), of 0 arrayAllocated] obtain t2
        where t2: "HashTableRehash arrayAllocated t1 0 = Inr t2" "invariant t2"
          "mset (entries t2) = mset (entries t1)" "numOfElements t2 = numOfElements t1"
          "keycmp t2 = keycmp t1" "hashFunction t2 = hashFunction t1"
        by auto
      with rh Cons have "HashTableRemove arrayAllocated t k = Inr (t2, releasePair t p)"
        unfolding HashTableRemove_def Let_def t1_def [symmetric] by auto
      with some t1 f1 t2 show ?thesis by simp
    qed
  qed
qed

lemma keycmp_equivalence_cong: "keycmp t' = keycmp t \<Longrightarrow> keycmp_equivalence t' = keycmp_equivalence t"
  by (simp add: keycmp_equivalence_def)

lemma hash_respects_keycmp_cong:
  "keycmp t' = keycmp t \<Longrightarrow> hashFunction t' = hashFunction t \<Longrightarrow>
   hash_respects_keycmp t' = hash_respects_keycmp t"
  by (simp add: hash_respects_keycmp_def)

lemma lookup_mset_cong:
  assumes "keycmp_equivalence t'" "invariant t'" "mset (entries t') = mset xs"
  shows "lookup t' k = List.find (\<lambda>p. keycmp t' k (key p) = 0) xs"
  unfolding lookup_def using assms
  by (intro find_key_mset_cong) (simp_all add: invariant_def)

lemma HashTableGet_invariant:
  assumes "invariant t" "hash_respects_keycmp t"
  shows "HashTableGet t k = (case lookup t k of None \<Rightarrow> NULL | Some p \<Rightarrow> val p)"
  using assms by (intro HashTableGet_lookup) (simp_all add: invariant_def)

subsection \<open>The example tables\<close>

lemma pointercmp_eq_0_iff: "pointercmp a b = 0 \<longleftrightarrow> a = b"
  by (simp add: pointercmp_def)

lemma pointercmp_equivalence: "keycmp t = pointercmp \<Longrightarrow> keycmp_equivalence t"
  by (simp add: keycmp_equivalence_def pointercmp_eq_0_iff)

lemma pointercmp_hash_respects: "keycmp t = pointercmp \<Longrightarrow> hash_respects_keycmp t"
  by (simp add: hash_respects_keycmp_def pointercmp_eq_0_iff)

lemma exampleTable_created: "HashTableCreate True True 5 = Inr (Some exampleTable)"
  by (simp add: HashTableCreate_def exampleTable_def numeral_eq_Suc)

lemma exampleTable_invariant: "invariant exampleTable"
  by (simp add: invariant_def exampleTable_def entries_def placed_def unique_keys_def
      less_Suc_eq numeral_eq_Suc)

lemma placed_code [code]:
  "placed t \<longleftrightarrow>
     (\<forall>i \<in> set [0..<length (bucketArray t)]. \<forall>p \<in> set (bucketArray t ! i). hashValue t (key p) = i)"
  by (auto simp: placed_def)

lemma oneKeyTable_invariant: "invariant oneKeyTable"
  by code_simp

lemma twoKeyTable_invariant: "invariant twoKeyTable"
  by code_simp

lemma twoKeyTable_strategies:
  "keycmp_equivalence twoKeyTable" "hash_respects_keycmp twoKeyTable"
  by (simp_all add: pointercmp_equivalence pointercmp_hash_respects twoKeyTable_def exampleTable_def)

lemma small_element_to_bucket_ratios:
  "\<not> 15 < float_div (long_to_float 1) (long_to_float 5)"
  "\<not> 15 < float_div (long_to_float 2) (long_to_float 5)"
  by code_simp+

lemma put_exampleTable:
  "HashTablePut True True exampleTable 0x10 0x1000 = Inr (0, oneKeyTable, [])"
  by (simp add: HashTablePut_def exampleTable_def oneKeyTable_def NULL_def hashValue_def
      pointerHashFunction_def Let_def small_element_to_bucket_ratios)

lemma put_oneKeyTable:
  "HashTablePut True True oneKeyTable 0x240 0x2000 = Inr (0, twoKeyTable, [])"
  by (simp add: HashTablePut_def exampleTable_def oneKeyTable_def twoKeyTable_def NULL_def
      hashValue_def pointerHashFunction_def pointercmp_def Let_def
      small_element_to_bucket_ratios)

lemma rehashBuckets_twoKeyTable:
  "rehashBuckets twoKeyTable 7 =
     [[], [\<lparr>key = 0x10, val = 0x1000\<rparr>, \<lparr>key = 0x240, val = 0x2000\<rparr>], [], [], [], [], []]"
  by code_simp

lemma rehash_twoKeyTable: "HashTableRehash True twoKeyTable 7 = Inr twoKeyTable7"
  by (simp add: HashTableRehash_def rehashBuckets_twoKeyTable)
     (simp add: twoKeyTable_def twoKeyTable7_def exampleTable_def)

lemma get_twoKeyTable:
  "HashTableGet twoKeyTable 0x10 = 0x1000" "HashTableGet twoKeyTable 0x240 = 0x2000"
  "HashTableGet twoKeyTable 0x20 = NULL"
  by (simp_all add: HashTableGet_def twoKeyTable_def exampleTable_def hashValue_def
      pointerHashFunction_def pointercmp_def)

subsection \<open>Get after put, remove and rehash\<close>

lemma lookup_None_iff: "lookup t k = None \<longleftrightarrow> (\<forall>p\<in>set (entries t). keycmp t k (key p) \<noteq> 0)"
  unfolding lookup_def find_None_iff by blast

lemma HashTableGet_after_put:
  assumes inv: "invariant t" and eq: "keycmp_equivalence t" and hr: "hash_respects_keycmp t"
    and nn: "k \<noteq> NULL" "v \<noteq> NULL"
    and put: "HashTablePut pairAllocated arrayAllocated t k v = Inr (0, t', eff)"
  shows "HashTableGet t' k' = (if keycmp t k' k = 0 then v else HashTableGet t k')"
proof -
  let ?new = "\<lparr>key = k, val = v\<rparr>"
  let ?P = "\<lambda>p. keycmp t k' (key p) = 0"
  from HashTablePut_result [OF inv eq hr nn, of pairAllocated arrayAllocated]
  obtain rc1 t1 eff1 where r: "HashTablePut pairAllocated arrayAllocated t k v = Inr (rc1, t1, eff1)"
    "invariant t1" "keycmp t1 = keycmp t" "hashFunction t1 = hashFunction t"
    "case lookup t k of
        Some p \<Rightarrow> rc1 = 0 \<and> numOfElements t1 = numOfElements t \<and>
          p \<in> set (entries t) \<and> keycmp t k (key p) = 0 \<and>
          mset (entries t1) = add_mset \<lparr>key = k, val = v\<rparr> (mset (entries t) - {#p#})
      | None \<Rightarrow>
          if pairAllocated
          then rc1 = 0 \<and> numOfElements t1 = numOfElements t + 1 \<and>
               mset (entries t1) = add_mset \<lparr>key = k, val = v\<rparr> (mset (entries t))
          else rc1 = - 1 \<and> t1 = t \<and> eff1 = []"
    by blast
  from r(1) put have same: "rc1 = 0" "t1 = t'" by simp_all
  note t' = r(2,3,4) [unfolded same]
  have cases: "case lookup t k of
        Some p \<Rightarrow> p \<in> set (entries t) \<and> keycmp t k (key p) = 0 \<and>
          mset (entries t') = add_mset ?new (mset (entries t) - {#p#})
      | None \<Rightarrow> mset (entries t') = add_mset ?new (mset (entries t))"
  proof (cases "lookup t k")
    case None
    with r(5) same show ?thesis by (cases pairAllocated) simp_all
  next
    case (Some p)
    with r(5) same show ?thesis by simp
  qed
  have eq': "keycmp_equivalence t'"
    using eq keycmp_equivalence_cong [OF t'(2)] by simp
  have hr': "hash_respects_keycmp t'"
    using hr hash_respects_keycmp_cong [OF t'(2,3)] by simp
  have "lookup t' k' = (if keycmp t k' k = 0 then Some ?new else lookup t k')"
  proof (cases "lookup t k")
    case None
    with cases have "mset (entries t') = mset (?new # entries t)" by simp
    from lookup_mset_cong [OF eq' t'(1) this, of k'] show ?thesis
      by (simp add: t'(2) lookup_def)
  next
    case (Some p)
    with cases have p: "p \<in> set (entries t)" "keycmp t k (key p) = 0"
      and "mset (entries t') = mset (?new # remove1 p (entries t))" by simp_all
    from lookup_mset_cong [OF eq' t'(1) this(3), of k']
    have l: "lookup t' k' = (if keycmp t k' k = 0 then Some ?new
        else List.find ?P (remove1 p (entries t)))"
      by (simp add: t'(2))
    show ?thesis
    proof (cases "keycmp t k' k = 0")
      case True
      with l show ?thesis by simp
    next
      case False
      have "\<not> ?P p"
      proof
        assume "keycmp t k' (key p) = 0"
        moreover from eq p(2) have "keycmp t (key p) k = 0" by (rule keycmp_sym)
        ultimately have "keycmp t k' k = 0" using eq keycmp_trans by blast
        with False show False by simp
      qed
      then have "List.find ?P (remove1 p (entries t)) = List.find ?P (entries t)"
        by (rule find_remove1_other)
      with l False show ?thesis by (simp add: lookup_def)
    qed
  qed
  then show ?thesis
    by (simp add: HashTableGet_invariant [OF t'(1) hr'] HashTableGet_invariant [OF inv hr])
qed

lemma HashTableGet_after_rehash:
  assumes inv: "invariant t" and eq: "keycmp_equivalence t" and hr: "hash_respects_keycmp t"
    and n: "0 \<le> n" and r: "HashTableRehash arrayAllocated t n = Inr t'"
  shows "HashTableGet t' k = HashTableGet t k"
proof -
  from HashTableRehash_invariant [OF inv n, of arrayAllocated]
  obtain t1 where r1: "HashTableRehash arrayAllocated t n = Inr t1" "invariant t1"
    "keycmp t1 = keycmp t" "hashFunction t1 = hashFunction t"
    "mset (entries t1) = mset (entries t)"
    by blast
  from r1(1) r have same: "t1 = t'" by simp
  note t' = r1(2,3,4,5) [unfolded same]
  have eq': "keycmp_equivalence t'"
    using eq keycmp_equivalence_cong [OF t'(2)] by simp
  have hr': "hash_respects_keycmp t'"
    using hr hash_respects_keycmp_cong [OF t'(2,3)] by simp
  from lookup_mset_cong [OF eq' t'(1) t'(4), of k] have "lookup t' k = lookup t k"
    by (simp add: t'(2) lookup_def)
  then show ?thesis
    by (simp add: HashTableGet_invariant [OF t'(1) hr'] HashTableGet_invariant [OF inv hr])
qed

lemma HashTableGet_after_remove:
  assumes inv: "invariant t" and eq: "keycmp_equivalence t" and hr: "hash_respects_keycmp t"
    and r: "HashTableRemove arrayAllocated t k = Inr (t', eff)"
  shows "HashTableGet t' k = NULL"
proof -
  from HashTableRemove_result [OF inv hr, of arrayAllocated k]
  obtain t1 eff1 where r1: "HashTableRemove arrayAllocated t k = Inr (t1, eff1)"
    "invariant t1" "keycmp t1 = keycmp t" "hashFunction t1 = hashFunction t"
    "case lookup t k of
        Some p \<Rightarrow> numOfElements t1 = numOfElements t - 1 \<and> eff1 = releasePair t p \<and>
          p \<in> set (entries t) \<and> keycmp t k (key p) = 0 \<and>
          mset (entries t1) = mset (entries t) - {#p#}
      | None \<Rightarrow> t1 = t \<and> eff1 = []"
    by blast
  from r1(1) r have same: "t1 = t'" by simp
  note t' = r1(2,3,4) [unfolded same]
  note cases = r1(5) [unfolded same]
  have eq': "keycmp_equivalence t'"
    using eq keycmp_equivalence_cong [OF t'(2)] by simp
  have hr': "hash_respects_keycmp t'"
    using hr hash_respects_keycmp_cong [OF t'(2,3)] by simp
  have "lookup t' k = None"
  proof (cases "lookup t k")
    case None
    with cases have "t' = t" by simp
    with None show ?thesis by simp
  next
    case (Some p)
    with cases have p: "p \<in> set (entries t)" "keycmp t k (key p) = 0"
      and m: "mset (entries t') = mset (remove1 p (entries t))" by simp_all
    from inv have uniq: "unique_keys (keycmp t) (entries t)" by (simp add: invariant_def)
    have "\<forall>q\<in>set (remove1 p (entries t)). keycmp t k (key q) \<noteq> 0"
      using unique_match [OF eq uniq p(1) _ p(2)] by blast
    moreover have "set (entries t') = set (remove1 p (entries t))"
      using m by (rule mset_eq_setD)
    ultimately show ?thesis
      by (simp add: lookup_None_iff t'(2))
  qed
  then show ?thesis
    by (simp add: HashTableGet_invariant [OF t'(1) hr'])
qed

text \<open>
  C4: for every table that satisfies the representation invariant, whose key comparison
  is symmetric and transitive and whose hash function respects it, and for every
  \<open>n \<ge> 1\<close>, \<open>rehash(n)\<close> returns, keeps the size and keeps what \<open>get\<close> returns for every
  key (so every key that was retrievable gives the same value reference as before),
  whether or not the new bucket array could be allocated; when \<open>n\<close> is the current
  bucket count, the table is unchanged.
\<close>

theorem rehash_preserves_size_and_get:
  assumes "invariant t" and "keycmp_equivalence t" and "hash_respects_keycmp t" and "1 \<le> n"
  shows "\<exists>t'. HashTableRehash arrayAllocated t n = Inr t' \<and>
           HashTableSize t' = HashTableSize t \<and>
           (\<forall>k. HashTableGet t' k = HashTableGet t k) \<and>
           (n = numOfBuckets t \<longrightarrow> t' = t)"
proof -
  from assms(4) have n: "0 \<le> n" by simp
  from HashTableRehash_invariant [OF assms(1) n, of arrayAllocated] obtain t'
    where t': "HashTableRehash arrayAllocated t n = Inr t'" "numOfElements t' = numOfElements t"
    by blast
  have "\<forall>k. HashTableGet t' k = HashTableGet t k"
    using HashTableGet_after_rehash [OF assms(1,2,3) n t'(1)] by blast
  moreover have "n = numOfBuckets t \<longrightarrow> t' = t"
    using t'(1) assms(4) by (auto simp: HashTableRehash_def)
  ultimately show ?thesis
    using t' by (simp add: HashTableSize_def)
qed

theorem rehash_preserves_size_and_get_witness:
  "invariant twoKeyTable \<and> keycmp_equivalence twoKeyTable \<and> hash_respects_keycmp twoKeyTable \<and>
   HashTableRehash True twoKeyTable 7 = Inr twoKeyTable7 \<and>
   HashTableSize twoKeyTable7 = 2 \<and>
   HashTableGet twoKeyTable7 0x10 = 0x1000 \<and> HashTableGet twoKeyTable7 0x240 = 0x2000 \<and>
   HashTableRehash True twoKeyTable 5 = Inr twoKeyTable"
proof -
  have s: "HashTableSize twoKeyTable = 2" "numOfBuckets twoKeyTable = 5"
    by (simp_all add: HashTableSize_def twoKeyTable_def exampleTable_def)
  from rehash_preserves_size_and_get
    [OF twoKeyTable_invariant twoKeyTable_strategies, of 7 True]
    rehash_preserves_size_and_get
    [OF twoKeyTable_invariant twoKeyTable_strategies, of 5 True]
  show ?thesis
    by (simp add: rehash_twoKeyTable s twoKeyTable_invariant twoKeyTable_strategies
        get_twoKeyTable)
qed

subsection \<open>Sizes after put and remove\<close>

lemma lookup_Some_ex:
  "(\<exists>p\<in>set (entries t). keycmp t k (key p) = 0) \<Longrightarrow> \<exists>p. lookup t k = Some p"
  using lookup_None_iff [of t k] by (cases "lookup t k") auto

lemma keycmp_refl_of_match:
  assumes "keycmp_equivalence t" "keycmp t k a = 0"
  shows "keycmp t k k = 0"
proof -
  from assms have "keycmp t a k = 0" by (rule keycmp_sym)
  with assms show ?thesis by (rule keycmp_trans)
qed

lemma put_existing_key:
  assumes inv: "invariant t" and eq: "keycmp_equivalence t" and hr: "hash_respects_keycmp t"
    and nn: "k \<noteq> NULL" "v \<noteq> NULL"
    and ex: "\<exists>p\<in>set (entries t). keycmp t k (key p) = 0"
  shows "\<exists>t' eff. HashTablePut pairAllocated arrayAllocated t k v = Inr (0, t', eff) \<and>
           HashTableSize t' = HashTableSize t \<and> HashTableGet t' k = v"
proof -
  from lookup_Some_ex [OF ex] obtain p where p: "lookup t k = Some p" ..
  from HashTablePut_result [OF inv eq hr nn, of pairAllocated arrayAllocated]
  obtain rc t' eff where r: "HashTablePut pairAllocated arrayAllocated t k v = Inr (rc, t', eff)"
    "case lookup t k of
        Some p \<Rightarrow> rc = 0 \<and> numOfElements t' = numOfElements t \<and>
          p \<in> set (entries t) \<and> keycmp t k (key p) = 0 \<and>
          mset (entries t') = add_mset \<lparr>key = k, val = v\<rparr> (mset (entries t) - {#p#})
      | None \<Rightarrow>
          if pairAllocated
          then rc = 0 \<and> numOfElements t' = numOfElements t + 1 \<and>
               mset (entries t') = add_mset \<lparr>key = k, val = v\<rparr> (mset (entries t))
          else rc = - 1 \<and> t' = t \<and> eff = []"
    by blast
  from r(2) p have 1: "rc = 0" "numOfElements t' = numOfElements t" "keycmp t k (key p) = 0"
    by simp_all
  from eq 1(3) have "keycmp t k k = 0" by (rule keycmp_refl_of_match)
  with HashTableGet_after_put [OF inv eq hr nn r(1) [unfolded 1(1)], of k]
  have "HashTableGet t' k = v" by simp
  with r(1) 1 show ?thesis by (simp add: HashTableSize_def)
qed

lemma put_new_key:
  assumes inv: "invariant t" and eq: "keycmp_equivalence t" and hr: "hash_respects_keycmp t"
    and nn: "k \<noteq> NULL" "v \<noteq> NULL"
    and nex: "\<forall>p\<in>set (entries t). keycmp t k (key p) \<noteq> 0"
  shows "\<exists>t' eff. HashTablePut True arrayAllocated t k v = Inr (0, t', eff) \<and>
           HashTableSize t' = HashTableSize t + 1"
proof -
  from nex have p: "lookup t k = None" by (simp add: lookup_None_iff)
  from HashTablePut_result [OF inv eq hr nn, of True arrayAllocated]
  obtain rc t' eff where r: "HashTablePut True arrayAllocated t k v = Inr (rc, t', eff)"
    "case lookup t k of
        Some p \<Rightarrow> rc = 0 \<and> numOfElements t' = numOfElements t \<and>
          p \<in> set (entries t) \<and> keycmp t k (key p) = 0 \<and>
          mset (entries t') = add_mset \<lparr>key = k, val = v\<rparr> (mset (entries t) - {#p#})
      | None \<Rightarrow>
          if True
          then rc = 0 \<and> numOfElements t' = numOfElements t + 1 \<and>
               mset (entries t') = add_mset \<lparr>key = k, val = v\<rparr> (mset (entries t))
          else rc = - 1 \<and> t' = t \<and> eff = []"
    by blast
  from r(2) p have "rc = 0" "numOfElements t' = numOfElements t + 1"
    by simp_all
  with r(1) show ?thesis by (simp add: HashTableSize_def)
qed

lemma remove_key:
  assumes inv: "invariant t" and eq: "keycmp_equivalence t" and hr: "hash_respects_keycmp t"
  shows "\<exists>t' eff. HashTableRemove arrayAllocated t k = Inr (t', eff) \<and>
           HashTableSize t' =
             (if \<exists>p\<in>set (entries t). keycmp t k (key p) = 0
              then HashTableSize t - 1 else HashTableSize t) \<and>
           HashTableGet t' k = NULL"
proof -
  from HashTableRemove_result [OF inv hr, of arrayAllocated k]
  obtain t' eff where r: "HashTableRemove arrayAllocated t k = Inr (t', eff)"
    "case lookup t k of
        Some p \<Rightarrow> numOfElements t' = numOfElements t - 1 \<and> eff = releasePair t p \<and>
          p \<in> set (entries t) \<and> keycmp t k (key p) = 0 \<and>
          mset (entries t') = mset (entries t) - {#p#}
      | None \<Rightarrow> t' = t \<and> eff = []"
    by blast
  have g: "HashTableGet t' k = NULL"
    using inv eq hr r(1) by (rule HashTableGet_after_remove)
  show ?thesis
  proof (cases "lookup t k")
    case None
    with r(2) have "t' = t" by simp
    moreover from None have "\<not> (\<exists>p\<in>set (entries t). keycmp t k (key p) = 0)"
      by (simp add: lookup_None_iff)
    ultimately show ?thesis using r(1) g by auto
  next
    case (Some p)
    with r(2) have "numOfElements t' = numOfElements t - 1"
      "p \<in> set (entries t)" "keycmp t k (key p) = 0"
      by simp_all
    with r(1) g show ?thesis by (auto simp: HashTableSize_def)
  qed
qed

text \<open>
  C2: for every table that satisfies the representation invariant, with a key comparison
  that is symmetric and transitive and a hash function that respects it, and every
  non-null key and value: a put on a key that some entry's key compares equal to
  succeeds, leaves the size unchanged and replaces the value; a put on a key that no
  entry's key compares equal to, when the node is allocated, succeeds and makes the size
  exactly one more; a remove of a key that some entry's key compares equal to makes the
  size exactly one less, and a get of that key then returns the absent indicator; a
  remove of a key that no entry's key compares equal to leaves the size unchanged.
\<close>

theorem put_and_remove_change_size_by_one:
  assumes "invariant t" and "keycmp_equivalence t" and "hash_respects_keycmp t"
  shows "(k \<noteq> NULL \<and> v \<noteq> NULL \<and> (\<exists>p\<in>set (entries t). keycmp t k (key p) = 0) \<longrightarrow>
           (\<exists>t' eff. HashTablePut pairAllocated arrayAllocated t k v = Inr (0, t', eff) \<and>
              HashTableSize t' = HashTableSize t \<and> HashTableGet t' k = v)) \<and>
         (k \<noteq> NULL \<and> v \<noteq> NULL \<and> (\<forall>p\<in>set (entries t). keycmp t k (key p) \<noteq> 0) \<longrightarrow>
           (\<exists>t' eff. HashTablePut True arrayAllocated t k v = Inr (0, t', eff) \<and>
              HashTableSize t' = HashTableSize t + 1)) \<and>
         ((\<exists>p\<in>set (entries t). keycmp t k (key p) = 0) \<longrightarrow>
           (\<exists>t' eff. HashTableRemove arrayAllocated t k = Inr (t', eff) \<and>
              HashTableSize t' = HashTableSize t - 1 \<and> HashTableGet t' k = NULL)) \<and>
         ((\<forall>p\<in>set (entries t). keycmp t k (key p) \<noteq> 0) \<longrightarrow>
           (\<exists>t' eff. HashTableRemove arrayAllocated t k = Inr (t', eff) \<and>
              HashTableSize t' = HashTableSize t))"
proof (intro conjI impI)
  assume "k \<noteq> NULL \<and> v \<noteq> NULL \<and> (\<exists>p\<in>set (entries t). keycmp t k (key p) = 0)"
  then show "\<exists>t' eff. HashTablePut pairAllocated arrayAllocated t k v = Inr (0, t', eff) \<and>
              HashTableSize t' = HashTableSize t \<and> HashTableGet t' k = v"
    using put_existing_key [OF assms, of k v pairAllocated arrayAllocated] by blast
next
  assume "k \<noteq> NULL \<and> v \<noteq> NULL \<and> (\<forall>p\<in>set (entries t). keycmp t k (key p) \<noteq> 0)"
  then show "\<exists>t' eff. HashTablePut True arrayAllocated t k v = Inr (0, t', eff) \<and>
              HashTableSize t' = HashTableSize t + 1"
    using put_new_key [OF assms, of k v arrayAllocated] by blast
next
  assume ex: "\<exists>p\<in>set (entries t). keycmp t k (key p) = 0"
  from remove_key [OF assms, of arrayAllocated k] obtain t' eff
    where "HashTableRemove arrayAllocated t k = Inr (t', eff)"
      "HashTableSize t' =
             (if \<exists>p\<in>set (entries t). keycmp t k (key p) = 0
              then HashTableSize t - 1 else HashTableSize t)"
      "HashTableGet t' k = NULL"
    by blast
  with ex show "\<exists>t' eff. HashTableRemove arrayAllocated t k = Inr (t', eff) \<and>
              HashTableSize t' = HashTableSize t - 1 \<and> HashTableGet t' k = NULL"
    by simp
next
  assume nex: "\<forall>p\<in>set (entries t). keycmp t k (key p) \<noteq> 0"
  from remove_key [OF assms, of arrayAllocated k] obtain t' eff
    where "HashTableRemove arrayAllocated t k = Inr (t', eff)"
      "HashTableSize t' =
             (if \<exists>p\<in>set (entries t). keycmp t k (key p) = 0
              then HashTableSize t - 1 else HashTableSize t)"
    by blast
  with nex show "\<exists>t' eff. HashTableRemove arrayAllocated t k = Inr (t', eff) \<and>
              HashTableSize t' = HashTableSize t"
    by simp
qed

lemma entries_twoKeyTable:
  "entries twoKeyTable = [\<lparr>key = 0x240, val = 0x2000\<rparr>, \<lparr>key = 0x10, val = 0x1000\<rparr>]"
  by (simp add: entries_def twoKeyTable_def)

lemma twoKeyTable_keycmp: "keycmp twoKeyTable a b = 0 \<longleftrightarrow> a = b"
  by (simp add: twoKeyTable_def exampleTable_def pointercmp_eq_0_iff)

theorem put_and_remove_change_size_by_one_witness:
  "invariant twoKeyTable \<and> keycmp_equivalence twoKeyTable \<and> hash_respects_keycmp twoKeyTable \<and>
   HashTableSize twoKeyTable = 2 \<and>
   (\<exists>t' eff. HashTablePut False True twoKeyTable 0x10 0x3000 = Inr (0, t', eff) \<and>
      HashTableSize t' = 2 \<and> HashTableGet t' 0x10 = 0x3000) \<and>
   (\<exists>t' eff. HashTablePut True True twoKeyTable 0x20 0x3000 = Inr (0, t', eff) \<and>
      HashTableSize t' = 3) \<and>
   (\<exists>t' eff. HashTableRemove True twoKeyTable 0x10 = Inr (t', eff) \<and>
      HashTableSize t' = 1 \<and> HashTableGet t' 0x10 = NULL) \<and>
   (\<exists>t' eff. HashTableRemove True twoKeyTable 0x20 = Inr (t', eff) \<and>
      HashTableSize t' = 2)"
proof -
  have s: "HashTableSize twoKeyTable = 2"
    by (simp add: HashTableSize_def twoKeyTable_def exampleTable_def)
  have n: "(0x10 :: ptr) \<noteq> NULL" "(0x20 :: ptr) \<noteq> NULL" "(0x3000 :: ptr) \<noteq> NULL"
    by (simp_all add: NULL_def)
  have ex: "\<exists>p\<in>set (entries twoKeyTable). keycmp twoKeyTable 0x10 (key p) = 0"
    by (simp add: entries_twoKeyTable twoKeyTable_keycmp)
  have nex: "\<forall>p\<in>set (entries twoKeyTable). keycmp twoKeyTable 0x20 (key p) \<noteq> 0"
    by (simp add: entries_twoKeyTable twoKeyTable_keycmp)
  note c2 = put_and_remove_change_size_by_one [OF twoKeyTable_invariant twoKeyTable_strategies]
  from c2 [of "0x10" "0x3000" False True] n ex
  have 1: "\<exists>t' eff. HashTablePut False True twoKeyTable 0x10 0x3000 = Inr (0, t', eff) \<and>
      HashTableSize t' = 2 \<and> HashTableGet t' 0x10 = 0x3000"
    and 3: "\<exists>t' eff. HashTableRemove True twoKeyTable 0x10 = Inr (t', eff) \<and>
      HashTableSize t' = 1 \<and> HashTableGet t' 0x10 = NULL"
    unfolding s by simp_all
  from c2 [of "0x20" "0x3000" False True] n nex
  have 2: "\<exists>t' eff. HashTablePut True True twoKeyTable 0x20 0x3000 = Inr (0, t', eff) \<and>
      HashTableSize t' = 3"
    and 4: "\<exists>t' eff. HashTableRemove True twoKeyTable 0x20 = Inr (t', eff) \<and>
      HashTableSize t' = 2"
    unfolding s by simp_all
  from 1 2 3 4 s twoKeyTable_invariant twoKeyTable_strategies show ?thesis
    by blast
qed

subsection \<open>Sequences of puts\<close>

lemma lastPut_Nil: "lastPut cmp k [] = None"
  by (simp add: lastPut_def)

lemma lastPut_Cons:
  "lastPut cmp k ((a, k1, v1) # puts) =
     (case lastPut cmp k puts of
        Some v \<Rightarrow> Some v
      | None \<Rightarrow> if cmp k k1 = 0 then Some v1 else None)"
  by (simp add: lastPut_def find_append split: option.split)

lemma putSequence_get:
  assumes "invariant t0" and "keycmp_equivalence t0" and "hash_respects_keycmp t0"
    and "\<forall>(a, k, v) \<in> set puts. k \<noteq> NULL \<and> v \<noteq> NULL"
  shows "\<exists>t. putSequence t0 puts = Inr t \<and> invariant t \<and>
           keycmp t = keycmp t0 \<and> hashFunction t = hashFunction t0 \<and>
           (\<forall>k. HashTableGet t k =
              (case lastPut (keycmp t0) k puts of Some v \<Rightarrow> v | None \<Rightarrow> HashTableGet t0 k))"
  using assms
proof (induction puts arbitrary: t0)
  case Nil
  then show ?case by (simp add: lastPut_Nil)
next
  case (Cons x puts)
  obtain a k1 v1 where x: "x = (a, k1, v1)" by (cases x)
  from Cons.prems(4) x have nn: "k1 \<noteq> NULL" "v1 \<noteq> NULL"
    and rest: "\<forall>(a, k, v) \<in> set puts. k \<noteq> NULL \<and> v \<noteq> NULL"
    by simp_all
  from HashTablePut_result [OF Cons.prems(1,2,3) nn, of True a]
  obtain rc t1 eff where r: "HashTablePut True a t0 k1 v1 = Inr (rc, t1, eff)"
    "invariant t1" "keycmp t1 = keycmp t0" "hashFunction t1 = hashFunction t0"
    "case lookup t0 k1 of
        Some p \<Rightarrow> rc = 0 \<and> numOfElements t1 = numOfElements t0 \<and>
          p \<in> set (entries t0) \<and> keycmp t0 k1 (key p) = 0 \<and>
          mset (entries t1) = add_mset \<lparr>key = k1, val = v1\<rparr> (mset (entries t0) - {#p#})
      | None \<Rightarrow>
          if True
          then rc = 0 \<and> numOfElements t1 = numOfElements t0 + 1 \<and>
               mset (entries t1) = add_mset \<lparr>key = k1, val = v1\<rparr> (mset (entries t0))
          else rc = - 1 \<and> t1 = t0 \<and> eff = []"
    by blast
  from r(5) have rc: "rc = 0" by (cases "lookup t0 k1") simp_all
  have g1: "HashTableGet t1 k = (if keycmp t0 k k1 = 0 then v1 else HashTableGet t0 k)" for k
    using HashTableGet_after_put [OF Cons.prems(1,2,3) nn r(1) [unfolded rc]] .
  have eq1: "keycmp_equivalence t1"
    using Cons.prems(2) keycmp_equivalence_cong [OF r(3)] by simp
  have hr1: "hash_respects_keycmp t1"
    using Cons.prems(3) hash_respects_keycmp_cong [OF r(3,4)] by simp
  from Cons.IH [OF r(2) eq1 hr1 rest] obtain t where t: "putSequence t1 puts = Inr t"
    "invariant t" "keycmp t = keycmp t1" "hashFunction t = hashFunction t1"
    "\<forall>k. HashTableGet t k =
       (case lastPut (keycmp t1) k puts of Some v \<Rightarrow> v | None \<Rightarrow> HashTableGet t1 k)"
    by blast
  have "putSequence t0 (x # puts) = Inr t"
    using r(1) t(1) x by simp
  moreover have "HashTableGet t k =
      (case lastPut (keycmp t0) k (x # puts) of Some v \<Rightarrow> v | None \<Rightarrow> HashTableGet t0 k)" for k
    using t(5) g1 [of k] by (simp add: x lastPut_Cons r(3) split: option.split)
  ultimately show ?case
    using t(2,3,4) r(3,4) by simp
qed

text \<open>
  C1: take a table that satisfies the representation invariant (a new table does), whose
  key comparison is symmetric and transitive and whose hash function gives keys that
  compare equal the same hash. After every sequence of puts of non-null keys and values
  whose nodes are allocated, \<open>get(k)\<close> returns the value of the most recent put of the
  sequence whose key compares equal to \<open>k\<close>, and what it returned before the sequence
  when there is none; and for a key that no entry of the table compares equal to,
  \<open>get(k)\<close> returns the absent indicator.
\<close>

theorem get_returns_most_recent_put:
  assumes "invariant t0" and "keycmp_equivalence t0" and "hash_respects_keycmp t0"
    and "\<forall>(a, k, v) \<in> set puts. k \<noteq> NULL \<and> v \<noteq> NULL"
  shows "\<exists>t. putSequence t0 puts = Inr t \<and>
           HashTableGet t k =
             (case lastPut (keycmp t0) k puts of Some v \<Rightarrow> v | None \<Rightarrow> HashTableGet t0 k) \<and>
           ((\<forall>p\<in>set (entries t). keycmp t k (key p) \<noteq> 0) \<longrightarrow> HashTableGet t k = NULL)"
proof -
  from putSequence_get [OF assms] obtain t where t: "putSequence t0 puts = Inr t"
    "invariant t" "keycmp t = keycmp t0" "hashFunction t = hashFunction t0"
    "\<forall>k. HashTableGet t k =
       (case lastPut (keycmp t0) k puts of Some v \<Rightarrow> v | None \<Rightarrow> HashTableGet t0 k)"
    by blast
  have hr: "hash_respects_keycmp t"
    using assms(3) hash_respects_keycmp_cong [OF t(3,4)] by simp
  have "(\<forall>p\<in>set (entries t). keycmp t k (key p) \<noteq> 0) \<longrightarrow> HashTableGet t k = NULL"
    by (simp add: HashTableGet_invariant [OF t(2) hr] lookup_None_iff [symmetric])
  with t(1,5) show ?thesis by blast
qed

lemma exampleTable_strategies:
  "keycmp_equivalence exampleTable" "hash_respects_keycmp exampleTable"
  by (simp_all add: pointercmp_equivalence pointercmp_hash_respects exampleTable_def)

lemma get_exampleTable: "HashTableGet exampleTable k = NULL"
proof -
  have "hashValue exampleTable k < 5"
    by (simp add: hashValue_def exampleTable_def)
  then have "bucketArray exampleTable ! hashValue exampleTable k = []"
    by (auto simp: exampleTable_def less_Suc_eq numeral_eq_Suc)
  then show ?thesis by (simp add: HashTableGet_def)
qed

theorem get_returns_most_recent_put_witness:
  "invariant exampleTable \<and> keycmp_equivalence exampleTable \<and>
   hash_respects_keycmp exampleTable \<and>
   (\<exists>t. putSequence exampleTable
           [(True, 0x10, 0x1000), (True, 0x240, 0x2000), (True, 0x10, 0x3000)] = Inr t \<and>
        HashTableGet t 0x10 = 0x3000) \<and>
   (\<exists>t. putSequence exampleTable
           [(True, 0x10, 0x1000), (True, 0x240, 0x2000), (True, 0x10, 0x3000)] = Inr t \<and>
        HashTableGet t 0x240 = 0x2000) \<and>
   (\<exists>t. putSequence exampleTable
           [(True, 0x10, 0x1000), (True, 0x240, 0x2000), (True, 0x10, 0x3000)] = Inr t \<and>
        HashTableGet t 0x20 = NULL)"
proof -
  let ?puts = "[(True, 0x10, 0x1000), (True, 0x240, 0x2000), (True, 0x10, 0x3000)]
    :: (bool \<times> ptr \<times> ptr) list"
  have nn: "\<forall>(a, k, v) \<in> set ?puts. k \<noteq> NULL \<and> v \<noteq> NULL"
    by (simp add: NULL_def)
  have l: "lastPut (keycmp exampleTable) 0x10 ?puts = Some 0x3000"
    "lastPut (keycmp exampleTable) 0x240 ?puts = Some 0x2000"
    "lastPut (keycmp exampleTable) 0x20 ?puts = None"
    by (simp_all add: lastPut_def exampleTable_def pointercmp_def)
  note c1 = get_returns_most_recent_put [OF exampleTable_invariant exampleTable_strategies nn]
  from c1 [of "0x10"] have 1: "\<exists>t. putSequence exampleTable ?puts = Inr t \<and>
      HashTableGet t 0x10 = 0x3000"
    unfolding l option.case by blast
  from c1 [of "0x240"] have 2: "\<exists>t. putSequence exampleTable ?puts = Inr t \<and>
      HashTableGet t 0x240 = 0x2000"
    unfolding l option.case by blast
  from c1 [of "0x20"] have 3: "\<exists>t. putSequence exampleTable ?puts = Inr t \<and>
      HashTableGet t 0x20 = NULL"
    unfolding l option.case get_exampleTable by blast
  from 1 2 3 exampleTable_invariant exampleTable_strategies show ?thesis
    by blast
qed

text \<open>
  C7: when the node of a new entry cannot be allocated, \<open>put\<close> of a non-null key and
  value returns the failure status -1, without any effect, and the table is exactly as
  before the call; when the new bucket array cannot be allocated, \<open>rehash\<close> returns, and
  the table is exactly as before the call: it keeps its bucket count and its entries.
\<close>

theorem allocation_failure_leaves_table_unchanged:
  "(k \<noteq> NULL \<and> v \<noteq> NULL \<and> findPair (keycmp t) k (bucketArray t ! hashValue t k) = [] \<longrightarrow>
      HashTablePut False arrayAllocated t k v = Inr (- 1, t, [])) \<and>
   (0 \<le> n \<longrightarrow> HashTableRehash False t n = Inr t)"
proof (intro conjI impI)
  assume "k \<noteq> NULL \<and> v \<noteq> NULL \<and> findPair (keycmp t) k (bucketArray t ! hashValue t k) = []"
  then show "HashTablePut False arrayAllocated t k v = Inr (- 1, t, [])"
    by (simp add: HashTablePut_def Let_def)
next
  assume "0 \<le> n"
  from HashTableRehash_cases [OF this, of False t] show "HashTableRehash False t n = Inr t"
    by auto
qed

theorem allocation_failure_leaves_table_unchanged_witness:
  "(0x20 :: ptr) \<noteq> NULL \<and> (0x3000 :: ptr) \<noteq> NULL \<and>
   findPair (keycmp twoKeyTable) 0x20 (bucketArray twoKeyTable ! hashValue twoKeyTable 0x20) = [] \<and>
   HashTablePut False True twoKeyTable 0x20 0x3000 = Inr (- 1, twoKeyTable, []) \<and>
   HashTableRehash False twoKeyTable 7 = Inr twoKeyTable \<and>
   HashTableRehash False twoKeyTable 0 = Inr twoKeyTable"
proof -
  have 1: "(0x20 :: ptr) \<noteq> NULL" "(0x3000 :: ptr) \<noteq> NULL"
    by (simp_all add: NULL_def)
  have 2: "findPair (keycmp twoKeyTable) 0x20
      (bucketArray twoKeyTable ! hashValue twoKeyTable 0x20) = []"
    by (simp add: twoKeyTable_def exampleTable_def hashValue_def pointerHashFunction_def)
  from allocation_failure_leaves_table_unchanged [of "0x20" "0x3000" twoKeyTable True 7]
    allocation_failure_leaves_table_unchanged [of "0x20" "0x3000" twoKeyTable True 0]
    1 2 show ?thesis by simp
qed

subsection \<open>Removing all entries\<close>

lemma fold_releaseBucket:
  "n \<le> length bs \<Longrightarrow>
   fold (releaseBucket t) [0..<n] (bs, eff) =
     (replicate n [] @ drop n bs,
      eff @ concat (map (\<lambda>c. concat (map (releasePair t) c)) (take n bs)))"
proof (induction n)
  case 0
  then show ?case by simp
next
  case (Suc n)
  then have n: "n < length bs" by simp
  have d: "drop n bs = bs ! n # drop (Suc n) bs"
    using n by (simp add: Cons_nth_drop_Suc)
  have u: "(replicate n [] @ drop n bs)[n := []] = replicate (Suc n) [] @ drop (Suc n) bs"
    by (simp add: d list_update_append replicate_append_same)
  have g: "(replicate n [] @ drop n bs) ! n = bs ! n"
    by (simp add: d nth_append)
  from Suc.IH n show ?case
    by (simp add: releaseBucket_def u g take_Suc_conv_app_nth)
qed

lemma concat_map_concat:
  "concat (map (\<lambda>c. concat (map f c)) bs) = concat (map f (concat bs))"
  by (induction bs) auto

lemma rehashBuckets_empty:
  assumes "length (bucketArray t) = nat (numOfBuckets t)" "\<forall>c\<in>set (bucketArray t). c = []"
  shows "rehashBuckets t n = replicate (nat n) []"
proof -
  have "fold (rehashChain h n) cs new = new" if "\<forall>c\<in>set cs. c = []" for cs new h
    using that by (induction cs arbitrary: new) auto
  with assms show ?thesis by (simp add: rehashBuckets_eq)
qed

lemma HashTableRemoveAll_result:
  assumes "0 < numOfBuckets t" "length (bucketArray t) = nat (numOfBuckets t)"
  shows "\<exists>t'. HashTableRemoveAll arrayAllocated t =
            Inr (t', concat (map (releasePair t) (entries t))) \<and>
          numOfElements t' = 0 \<and>
          (\<exists>m. 0 < m \<and> numOfBuckets t' = m \<and> bucketArray t' = replicate (nat m) [] \<and>
               (arrayAllocated \<longrightarrow> m = 5)) \<and>
          keycmp t' = keycmp t \<and> hashFunction t' = hashFunction t"
proof -
  define t1 where "t1 = t\<lparr>bucketArray := replicate (nat (numOfBuckets t)) [], numOfElements := 0\<rparr>"
  have f: "fold (releaseBucket t) [0..<nat (numOfBuckets t)] (bucketArray t, []) =
      (replicate (nat (numOfBuckets t)) [], concat (map (releasePair t) (entries t)))"
    using fold_releaseBucket [of "nat (numOfBuckets t)" "bucketArray t" t "[]"] assms(2)
    by (simp add: concat_map_concat entries_def)
  have all: "HashTableRemoveAll arrayAllocated t =
      (case HashTableRehash arrayAllocated t1 5 of
         Inl e \<Rightarrow> Inl e
       | Inr t' \<Rightarrow> Inr (t', concat (map (releasePair t) (entries t))))"
    by (simp add: HashTableRemoveAll_def f t1_def)
  have len1: "length (bucketArray t1) = nat (numOfBuckets t1)"
    "\<forall>c\<in>set (bucketArray t1). c = []"
    by (simp_all add: t1_def)
  show ?thesis
  proof (cases "numOfBuckets t = 5 \<or> \<not> arrayAllocated")
    case True
    then have "HashTableRehash arrayAllocated t1 5 = Inr t1"
      by (auto simp: HashTableRehash_def t1_def)
    with all have "HashTableRemoveAll arrayAllocated t =
        Inr (t1, concat (map (releasePair t) (entries t)))"
      by simp
    moreover have "numOfElements t1 = 0" "keycmp t1 = keycmp t" "hashFunction t1 = hashFunction t"
      "bucketArray t1 = replicate (nat (numOfBuckets t1)) []" "0 < numOfBuckets t1"
      "arrayAllocated \<longrightarrow> numOfBuckets t1 = 5"
      using assms(1) True by (auto simp: t1_def)
    ultimately show ?thesis by blast
  next
    case False
    define t2 where "t2 = t1\<lparr>bucketArray := rehashBuckets t1 5, numOfBuckets := 5\<rparr>"
    from False have "HashTableRehash arrayAllocated t1 5 = Inr t2"
      by (simp add: HashTableRehash_def t1_def t2_def)
    with all have "HashTableRemoveAll arrayAllocated t =
        Inr (t2, concat (map (releasePair t) (entries t)))"
      by simp
    moreover have "numOfElements t2 = 0" "keycmp t2 = keycmp t" "hashFunction t2 = hashFunction t"
      "bucketArray t2 = replicate (nat (numOfBuckets t2)) []" "0 < numOfBuckets t2"
      "arrayAllocated \<longrightarrow> numOfBuckets t2 = 5"
      using rehashBuckets_empty [OF len1, of 5] by (simp_all add: t1_def t2_def)
    ultimately show ?thesis by blast
  qed
qed

lemma empty_invariant:
  assumes "0 < numOfBuckets t" "bucketArray t = replicate (nat (numOfBuckets t)) []"
    "numOfElements t = 0"
  shows "invariant t"
proof -
  have "entries t = []"
    using assms(2) by (simp add: entries_def)
  moreover have "placed t"
    using assms(2) by (simp add: placed_def)
  ultimately show ?thesis
    using assms by (simp add: invariant_def unique_keys_Nil)
qed

subsection \<open>The iterator\<close>

lemma getFirstFrom_result:
  assumes "length (bucketArray t) = nat (numOfBuckets t)"
  shows "case getFirstFrom t b of
           None \<Rightarrow> concat (drop b (bucketArray t)) = []
         | Some (iter, k, v) \<Rightarrow>
             remaining t iter = concat (drop b (bucketArray t)) \<and>
             bucket iter < length (bucketArray t) \<and>
             (\<exists>p nextPair. pair iter = p # nextPair \<and> k = key p \<and> v = val p)"
  using assms
proof (induction t b rule: getFirstFrom.induct)
  case (1 t b)
  show ?case
  proof (cases "int b < numOfBuckets t")
    case False
    with "1.prems" have "length (bucketArray t) \<le> b" by simp
    with False show ?thesis
      by (subst getFirstFrom.simps) simp
  next
    case lt: True
    with "1.prems" have b: "b < length (bucketArray t)" by simp
    then have d: "drop b (bucketArray t) = bucketArray t ! b # drop (Suc b) (bucketArray t)"
      by (simp add: Cons_nth_drop_Suc)
    show ?thesis
    proof (cases "bucketArray t ! b")
      case Nil
      have "getFirstFrom t b = getFirstFrom t (b + 1)"
        using lt Nil by (subst getFirstFrom.simps) (simp del: getFirstFrom.simps)
      moreover have "concat (drop b (bucketArray t)) = concat (drop (b + 1) (bucketArray t))"
        using d Nil by simp
      ultimately show ?thesis
        using "1.IH" [OF lt Nil "1.prems"] by (simp only:)
    next
      case (Cons p nextPair)
      with lt b show ?thesis
        by (subst getFirstFrom.simps) (simp add: d remaining_def)
    qed
  qed
qed

lemma getNextLoop_result:
  assumes "length (bucketArray t) = nat (numOfBuckets t)" "bucket iter < length (bucketArray t)"
  shows "case getNextLoop t iter of
           None \<Rightarrow> remaining t iter = []
         | Some (iter', k, v) \<Rightarrow>
             remaining t iter' = remaining t iter \<and>
             bucket iter' < length (bucketArray t) \<and>
             (\<exists>p nextPair. pair iter' = p # nextPair \<and> k = key p \<and> v = val p)"
  using assms
proof (induction t iter rule: getNextLoop.induct)
  case (1 t iter)
  from "1.prems" have lt: "int (bucket iter) < numOfBuckets t" by simp
  show ?case
  proof (cases "pair iter")
    case (Cons p nextPair)
    with lt "1.prems"(2) show ?thesis
      by (subst getNextLoop.simps) simp
  next
    case Nil
    show ?thesis
    proof (cases "int (bucket iter) + 1 < numOfBuckets t")
      case False
      with "1.prems" have "length (bucketArray t) \<le> Suc (bucket iter)" by simp
      with Nil lt False show ?thesis
        by (subst getNextLoop.simps) (simp add: remaining_def)
    next
      case True
      let ?iter' = "iter\<lparr>bucket := bucket iter + 1, pair := bucketArray t ! (bucket iter + 1)\<rparr>"
      from True "1.prems" have b: "Suc (bucket iter) < length (bucketArray t)" by simp
      then have d: "drop (Suc (bucket iter)) (bucketArray t) =
          bucketArray t ! Suc (bucket iter) # drop (Suc (Suc (bucket iter))) (bucketArray t)"
        by (simp add: Cons_nth_drop_Suc)
      have r: "remaining t ?iter' = remaining t iter"
        using Nil by (simp add: remaining_def d)
      have "bucket ?iter' < length (bucketArray t)" using b by simp
      from "1.IH" [OF lt Nil True "1.prems"(1) this]
      have "case getNextLoop t ?iter' of
           None \<Rightarrow> remaining t ?iter' = []
         | Some (iter', k, v) \<Rightarrow>
             remaining t iter' = remaining t ?iter' \<and>
             bucket iter' < length (bucketArray t) \<and>
             (\<exists>p nextPair. pair iter' = p # nextPair \<and> k = key p \<and> v = val p)" .
      moreover have "getNextLoop t iter = getNextLoop t ?iter'"
        using lt Nil True by (subst getNextLoop.simps) simp
      ultimately show ?thesis
        unfolding r by simp
    qed
  qed
qed

lemma iterateFrom_remaining:
  assumes "length (bucketArray t) = nat (numOfBuckets t)"
    and "bucket iter < length (bucketArray t)"
    and "pair iter = p # nextPair" "k = key p" "v = val p"
  shows "iterateFrom t (Some (iter, k, v)) = Some (map (\<lambda>p. (key p, val p)) (remaining t iter))"
  using assms(2-)
proof (induction "length (remaining t iter)" arbitrary: iter p nextPair k v rule: less_induct)
  case less
  let ?iter1 = "iter\<lparr>pair := nextPair\<rparr>"
  have nx: "hashTableGetNext t iter = Inr (getNextLoop t ?iter1)"
    using less.prems(2) by (simp add: hashTableGetNext_def)
  have r: "remaining t iter = p # remaining t ?iter1"
    using less.prems(2) by (simp add: remaining_def)
  have b1: "bucket ?iter1 < length (bucketArray t)"
    using less.prems(1) by simp
  note res = getNextLoop_result [OF assms(1) b1]
  show ?case
  proof (cases "getNextLoop t ?iter1")
    case None
    with res have "remaining t ?iter1 = []" by simp
    with None nx r less.prems(3,4) show ?thesis
      by (subst iterateFrom.simps) (simp add: iterateFrom.simps [of t None])
  next
    case (Some c)
    obtain iter' k' v' where c: "c = (iter', k', v')" by (cases c)
    with res Some obtain p' nextPair' where n: "remaining t iter' = remaining t ?iter1"
      "bucket iter' < length (bucketArray t)"
      "pair iter' = p' # nextPair'" "k' = key p'" "v' = val p'"
      by auto
    have "length (remaining t iter') < length (remaining t iter)"
      using n(1) r by simp
    from less.hyps [OF this n(2,3,4,5)]
    have "iterateFrom t (Some (iter', k', v')) =
        Some (map (\<lambda>p. (key p, val p)) (remaining t ?iter1))"
      by (simp add: n(1))
    with Some c nx r less.prems(3,4) show ?thesis
      by (subst iterateFrom.simps) simp
  qed
qed

lemma fullIteration_entries:
  assumes "length (bucketArray t) = nat (numOfBuckets t)"
  shows "fullIteration t = Some (map (\<lambda>p. (key p, val p)) (entries t))"
proof -
  note res = getFirstFrom_result [OF assms, of 0]
  show ?thesis
  proof (cases "getFirstFrom t 0")
    case None
    with res have "entries t = []" by (simp add: entries_def)
    with None show ?thesis
      by (simp add: fullIteration_def hashTableGetFirst_def iterateFrom.simps [of t None])
  next
    case (Some c)
    obtain iter k v where c: "c = (iter, k, v)" by (cases c)
    with res Some obtain p nextPair where n: "remaining t iter = entries t"
      "bucket iter < length (bucketArray t)"
      "pair iter = p # nextPair" "k = key p" "v = val p"
      by (auto simp: entries_def)
    from iterateFrom_remaining [OF assms n(2,3,4,5)] Some c n(1) show ?thesis
      by (simp add: fullIteration_def hashTableGetFirst_def)
  qed
qed

subsection \<open>Reachable tables\<close>

lemma HashTableRemove_invariant:
  assumes inv: "invariant t" and r: "HashTableRemove arrayAllocated t k = Inr (t', eff)"
  shows "invariant t' \<and> keycmp t' = keycmp t \<and> hashFunction t' = hashFunction t \<and>
         mset (entries t') \<subseteq># mset (entries t)"
proof (cases "findPair (keycmp t) k (bucketArray t ! hashValue t k)")
  case Nil
  with r have "t' = t" by (simp add: HashTableRemove_def Let_def)
  with inv show ?thesis by simp
next
  case (Cons p rest)
  define t1 where "t1 = t\<lparr>bucketArray := (bucketArray t)
      [hashValue t k := unlinkPair (keycmp t) k (bucketArray t ! hashValue t k)],
      numOfElements := numOfElements t - 1\<rparr>"
  from unlinked_invariant [OF inv Cons]
  have t1: "invariant t1" "mset (entries t1) = mset (entries t) - {#p#}"
    by (simp_all add: t1_def)
  have f1: "keycmp t1 = keycmp t" "hashFunction t1 = hashFunction t"
    by (simp_all add: t1_def)
  from HashTableRehash_invariant [OF t1(1), of 0 arrayAllocated] obtain t2
    where t2: "HashTableRehash arrayAllocated t1 0 = Inr t2" "invariant t2"
      "mset (entries t2) = mset (entries t1)"
      "keycmp t2 = keycmp t1" "hashFunction t2 = hashFunction t1"
    by auto
  from r Cons t2(1) have "t' = t1 \<or> t' = t2"
    unfolding HashTableRemove_def Let_def t1_def [symmetric]
    by (auto split: if_splits)
  with t1 f1 t2 show ?thesis by auto
qed

lemma HashTablePut_not_null:
  "HashTablePut pairAllocated arrayAllocated t k v = Inr x \<Longrightarrow> k \<noteq> NULL \<and> v \<noteq> NULL"
  by (auto simp: HashTablePut_def split: if_splits)

lemma HashTablePut_entries:
  assumes inv: "invariant t" and eq: "keycmp_equivalence t" and hr: "hash_respects_keycmp t"
    and r: "HashTablePut pairAllocated arrayAllocated t k v = Inr (rc, t', eff)"
  shows "invariant t' \<and> keycmp t' = keycmp t \<and> hashFunction t' = hashFunction t \<and>
         set (entries t') \<subseteq> insert \<lparr>key = k, val = v\<rparr> (set (entries t)) \<and>
         k \<noteq> NULL \<and> v \<noteq> NULL"
proof -
  from HashTablePut_not_null [OF r] have nn: "k \<noteq> NULL" "v \<noteq> NULL" by simp_all
  from HashTablePut_result [OF inv eq hr nn, of pairAllocated arrayAllocated]
  obtain rc1 t1 eff1 where r1: "HashTablePut pairAllocated arrayAllocated t k v = Inr (rc1, t1, eff1)"
    "invariant t1" "keycmp t1 = keycmp t" "hashFunction t1 = hashFunction t"
    "case lookup t k of
        Some p \<Rightarrow> rc1 = 0 \<and> numOfElements t1 = numOfElements t \<and>
          p \<in> set (entries t) \<and> keycmp t k (key p) = 0 \<and>
          mset (entries t1) = add_mset \<lparr>key = k, val = v\<rparr> (mset (entries t) - {#p#})
      | None \<Rightarrow>
          if pairAllocated
          then rc1 = 0 \<and> numOfElements t1 = numOfElements t + 1 \<and>
               mset (entries t1) = add_mset \<lparr>key = k, val = v\<rparr> (mset (entries t))
          else rc1 = - 1 \<and> t1 = t \<and> eff1 = []"
    by blast
  from r1(1) r have same: "t1 = t'" by simp
  have "set_mset (mset (entries t')) \<subseteq> insert \<lparr>key = k, val = v\<rparr> (set_mset (mset (entries t)))"
  proof (cases "lookup t k")
    case None
    with r1(5) same show ?thesis by (cases pairAllocated) auto
  next
    case (Some p)
    with r1(5) same
    have "mset (entries t') = add_mset \<lparr>key = k, val = v\<rparr> (mset (entries t) - {#p#})"
      by simp
    then show ?thesis by (auto dest: in_diffD)
  qed
  then have "set (entries t') \<subseteq> insert \<lparr>key = k, val = v\<rparr> (set (entries t))"
    by simp
  with r1(2,3,4) same nn show ?thesis by simp
qed

lemma invariant_numOfElements_0:
  "invariant t \<Longrightarrow> numOfElements t = 0 \<Longrightarrow> entries t = [] \<and> (\<forall>c\<in>set (bucketArray t). c = [])"
  by (auto simp: invariant_def entries_def)

lemma sound_table_empty:
  assumes "0 < numOfBuckets t" "bucketArray t = replicate (nat (numOfBuckets t)) []"
    "numOfElements t = 0"
  shows "sound_table t"
proof -
  have "entries t = []" using assms(2) by (simp add: entries_def)
  with empty_invariant [OF assms] show ?thesis by (simp add: sound_table_def)
qed

lemma sound_table_create:
  assumes "HashTableCreate True True n = Inr (Some t)"
  shows "sound_table t"
proof -
  from assms have "0 < n" by (cases "0 < n") (simp_all add: HashTableCreate_def)
  with assms have "0 < numOfBuckets t" "bucketArray t = replicate (nat (numOfBuckets t)) []"
    "numOfElements t = 0"
    by (auto simp: HashTableCreate_def)
  then show ?thesis by (rule sound_table_empty)
qed

lemma sound_table_put:
  assumes "sound_table t" "keycmp_equivalence t" "hash_respects_keycmp t"
    and "HashTablePut pairAllocated arrayAllocated t k v = Inr (rc, t', eff)"
  shows "sound_table t'"
proof -
  from assms(1) have inv: "invariant t"
    and nn: "\<forall>p\<in>set (entries t). key p \<noteq> NULL \<and> val p \<noteq> NULL"
    by (simp_all add: sound_table_def)
  from HashTablePut_entries [OF inv assms(2,3,4)]
  have t': "invariant t'" "keycmp t' = keycmp t" "hashFunction t' = hashFunction t"
    "set (entries t') \<subseteq> insert \<lparr>key = k, val = v\<rparr> (set (entries t))"
    "k \<noteq> NULL" "v \<noteq> NULL"
    by simp_all
  have 1: "keycmp_equivalence t'"
    using assms(2) keycmp_equivalence_cong [OF t'(2)] by simp
  have 2: "hash_respects_keycmp t'"
    using assms(3) hash_respects_keycmp_cong [OF t'(2,3)] by simp
  have 3: "\<forall>p\<in>set (entries t'). key p \<noteq> NULL \<and> val p \<noteq> NULL"
  proof
    fix p assume "p \<in> set (entries t')"
    with t'(4) have "p = \<lparr>key = k, val = v\<rparr> \<or> p \<in> set (entries t)" by blast
    then show "key p \<noteq> NULL \<and> val p \<noteq> NULL"
    proof
      assume "p = \<lparr>key = k, val = v\<rparr>"
      with t'(5,6) show ?thesis by simp
    next
      assume "p \<in> set (entries t)"
      with nn show ?thesis by blast
    qed
  qed
  from t'(1) 1 2 3 show ?thesis by (simp add: sound_table_def)
qed

lemma sound_table_subset:
  assumes "sound_table t" "invariant t'" "keycmp t' = keycmp t" "hashFunction t' = hashFunction t"
    and "set (entries t') \<subseteq> set (entries t)"
  shows "sound_table t'"
proof -
  from assms(1) have st: "entries t \<noteq> [] \<longrightarrow> keycmp_equivalence t \<and> hash_respects_keycmp t"
    and nn: "\<forall>p\<in>set (entries t). key p \<noteq> NULL \<and> val p \<noteq> NULL"
    by (simp_all add: sound_table_def)
  have 1: "keycmp_equivalence t' = keycmp_equivalence t"
    by (rule keycmp_equivalence_cong [OF assms(3)])
  have 2: "hash_respects_keycmp t' = hash_respects_keycmp t"
    by (rule hash_respects_keycmp_cong [OF assms(3,4)])
  have 3: "entries t \<noteq> []" if "entries t' \<noteq> []"
  proof
    assume "entries t = []"
    with assms(5) have "set (entries t') = {}" by simp
    with that show False by simp
  qed
  have 4: "\<forall>p\<in>set (entries t'). key p \<noteq> NULL \<and> val p \<noteq> NULL"
    using nn assms(5) by blast
  from st 3 have "entries t' \<noteq> [] \<longrightarrow> keycmp_equivalence t' \<and> hash_respects_keycmp t'"
    unfolding 1 2 by blast
  with assms(2) 4 show ?thesis by (simp add: sound_table_def)
qed

lemma sound_table_remove:
  assumes "sound_table t" "HashTableRemove arrayAllocated t k = Inr (t', eff)"
  shows "sound_table t'"
proof -
  from assms(1) have inv: "invariant t" by (simp add: sound_table_def)
  from HashTableRemove_invariant [OF inv assms(2)]
  have t': "invariant t'" "keycmp t' = keycmp t" "hashFunction t' = hashFunction t"
    "mset (entries t') \<subseteq># mset (entries t)"
    by simp_all
  from t'(4) have "set (entries t') \<subseteq> set (entries t)"
    by (metis set_mset_mono set_mset_mset)
  with assms(1) t'(1,2,3) show ?thesis by (rule sound_table_subset)
qed

lemma sound_table_removeAll:
  assumes "sound_table t" "HashTableRemoveAll arrayAllocated t = Inr (t', eff)"
  shows "sound_table t'"
proof -
  from assms(1) have "0 < numOfBuckets t" "length (bucketArray t) = nat (numOfBuckets t)"
    by (simp_all add: sound_table_def invariant_def)
  from HashTableRemoveAll_result [OF this, of arrayAllocated] obtain t1 m
    where r: "HashTableRemoveAll arrayAllocated t = Inr (t1, concat (map (releasePair t) (entries t)))"
      "numOfElements t1 = 0" "0 < m" "numOfBuckets t1 = m" "bucketArray t1 = replicate (nat m) []"
    by blast
  from r(1) assms(2) have "t1 = t'" by simp
  with r(2,3,4,5) show ?thesis by (intro sound_table_empty) simp_all
qed

lemma sound_table_rehash:
  assumes "sound_table t" "HashTableRehash arrayAllocated t n = Inr t'"
  shows "sound_table t'"
proof -
  from assms(1) have inv: "invariant t" by (simp add: sound_table_def)
  have n: "0 \<le> n"
  proof (rule ccontr)
    assume "\<not> 0 \<le> n"
    then have "HashTableRehash arrayAllocated t n = Inl AssertionFailed"
      by (simp add: HashTableRehash_def)
    with assms(2) show False by simp
  qed
  from HashTableRehash_invariant [OF inv n, of arrayAllocated] obtain t1
    where r: "HashTableRehash arrayAllocated t n = Inr t1" "invariant t1"
      "mset (entries t1) = mset (entries t)" "keycmp t1 = keycmp t" "hashFunction t1 = hashFunction t"
    by blast
  from r(1) assms(2) have same: "t1 = t'" by simp
  from r(3) have "set (entries t1) = set (entries t)" by (rule mset_eq_setD)
  then have "set (entries t1) \<subseteq> set (entries t)" by simp
  with assms(1) r(2,4,5) have "sound_table t1" by (rule sound_table_subset)
  with same show ?thesis by simp
qed

lemma sound_table_setKeyComparison:
  assumes "sound_table t" "numOfElements t = 0"
    and "HashTableSetKeyComparisonFunction t f = Inr t'"
  shows "sound_table t'"
proof -
  from assms(3) obtain f' where t': "t' = t\<lparr>keycmp := f'\<rparr>"
    by (cases f) (auto simp: HashTableSetKeyComparisonFunction_def)
  from assms(1) have inv: "invariant t" by (simp add: sound_table_def)
  from invariant_numOfElements_0 [OF inv assms(2)] have e: "entries t = []" by simp
  have e': "entries t' = entries t" "placed t' = placed t"
    by (simp_all add: t' entries_def placed_def hashValue_def)
  have "invariant t'"
    using inv unfolding invariant_def e' e by (simp add: t' unique_keys_Nil)
  then show ?thesis by (simp add: sound_table_def e' e)
qed

lemma sound_table_setHashFunction:
  assumes "sound_table t" "numOfElements t = 0"
    and "HashTableSetHashFunction t h = Inr t'"
  shows "sound_table t'"
proof -
  from assms(3) obtain h' where t': "t' = t\<lparr>hashFunction := h'\<rparr>"
    by (cases h) (auto simp: HashTableSetHashFunction_def)
  from assms(1) have inv: "invariant t" by (simp add: sound_table_def)
  from invariant_numOfElements_0 [OF inv assms(2)]
  have e: "entries t = []" "\<forall>c\<in>set (bucketArray t). c = []" by simp_all
  have "bucketArray t ! i = []" if "i < length (bucketArray t)" for i
    using e(2) that nth_mem by blast
  then have "placed t'"
    by (simp add: t' placed_def)
  moreover have e': "entries t' = entries t"
    by (simp add: t' entries_def)
  ultimately have "invariant t'"
    using inv unfolding invariant_def e' e by (simp add: t')
  then show ?thesis by (simp add: sound_table_def e' e)
qed

lemma sound_table_other_fields:
  assumes "sound_table t" "bucketArray t' = bucketArray t" "numOfBuckets t' = numOfBuckets t"
    "numOfElements t' = numOfElements t" "keycmp t' = keycmp t" "hashFunction t' = hashFunction t"
  shows "sound_table t'"
proof -
  have e: "entries t' = entries t" "placed t' = placed t"
    using assms(2,3,6) by (simp_all add: entries_def placed_def hashValue_def)
  have "invariant t' = invariant t"
    unfolding invariant_def e assms(2,3,4,5) ..
  moreover have "keycmp_equivalence t' = keycmp_equivalence t"
    by (rule keycmp_equivalence_cong [OF assms(5)])
  moreover have "hash_respects_keycmp t' = hash_respects_keycmp t"
    by (rule hash_respects_keycmp_cong [OF assms(5,6)])
  ultimately show ?thesis
    using assms(1) unfolding sound_table_def e by blast
qed

lemma reachable_sound_table: "reachable t \<Longrightarrow> sound_table t"
proof (induction rule: reachable.induct)
  case (create n t)
  then show ?case by (rule sound_table_create)
next
  case (put t pairAllocated arrayAllocated k v rc t' eff)
  from put.IH put.hyps(2,3,4) show ?case by (rule sound_table_put)
next
  case (remove t arrayAllocated k t' eff)
  from remove.IH remove.hyps(2) show ?case by (rule sound_table_remove)
next
  case (removeAll t arrayAllocated t' eff)
  from removeAll.IH removeAll.hyps(2) show ?case by (rule sound_table_removeAll)
next
  case (rehash t arrayAllocated n t')
  from rehash.IH rehash.hyps(2) show ?case by (rule sound_table_rehash)
next
  case (setKeyComparison t f t')
  from setKeyComparison.IH setKeyComparison.hyps(2,3) show ?case
    by (rule sound_table_setKeyComparison)
next
  case (setHashFunction t h t')
  from setHashFunction.IH setHashFunction.hyps(2,3) show ?case
    by (rule sound_table_setHashFunction)
next
  case (setValueComparison t f t')
  from setValueComparison.hyps(2) obtain f' where "t' = t\<lparr>valuecmp := f'\<rparr>"
    by (cases f) (auto simp: HashTableSetValueComparisonFunction_def)
  with setValueComparison.IH show ?case
    by (elim sound_table_other_fields) simp_all
next
  case (setDeallocation t keyDeallocator' valueDeallocator')
  then show ?case
    by (elim sound_table_other_fields)
       (simp_all add: HashTableSetDeallocationFunctions_def)
qed

lemma reachable_twoKeyTable: "reachable oneKeyTable" "reachable twoKeyTable"
proof -
  have 0: "reachable exampleTable"
    using exampleTable_created by (rule reachable.create)
  then show 1: "reachable oneKeyTable"
    using exampleTable_strategies put_exampleTable by (rule reachable.put)
  have "keycmp_equivalence oneKeyTable" "hash_respects_keycmp oneKeyTable"
    by (simp_all add: pointercmp_equivalence pointercmp_hash_respects oneKeyTable_def
        exampleTable_def)
  with 1 show "reachable twoKeyTable"
    using put_oneKeyTable by (rule reachable.put)
qed

subsection \<open>The invariant in reachable states\<close>

text \<open>
  C3, as stated, fails: a strategy setter only stores the new function. After
  \<open>create(5)\<close> and \<open>put(0x10, 0x1000)\<close> the entry is in bucket 1; after
  \<open>setHashFunction\<close> with a function that sends every key to 0 it is still in bucket 1,
  while its key hashes to bucket 0 under the table's current hash function: the
  invariant does not hold, and \<open>get(0x10)\<close> no longer finds the entry.
\<close>

theorem invariant_broken_by_setHashFunction:
  "HashTableCreate True True 5 = Inr (Some exampleTable) \<and>
   HashTablePut True True exampleTable 0x10 0x1000 = Inr (0, oneKeyTable, []) \<and>
   invariant oneKeyTable \<and>
   HashTableSetHashFunction oneKeyTable (Some zeroHash) =
     Inr (oneKeyTable\<lparr>hashFunction := zeroHash\<rparr>) \<and>
   bucketArray (oneKeyTable\<lparr>hashFunction := zeroHash\<rparr>) ! 1 = [\<lparr>key = 0x10, val = 0x1000\<rparr>] \<and>
   hashValue (oneKeyTable\<lparr>hashFunction := zeroHash\<rparr>) 0x10 = 0 \<and>
   \<not> invariant (oneKeyTable\<lparr>hashFunction := zeroHash\<rparr>) \<and>
   HashTableGet (oneKeyTable\<lparr>hashFunction := zeroHash\<rparr>) 0x10 = NULL"
proof -
  let ?t = "oneKeyTable\<lparr>hashFunction := zeroHash\<rparr>"
  have b: "bucketArray ?t ! 1 = [\<lparr>key = 0x10, val = 0x1000\<rparr>]"
    by (simp add: oneKeyTable_def)
  have h: "hashValue ?t 0x10 = 0"
    by (simp add: hashValue_def zeroHash_def)
  have "\<not> placed ?t"
  proof
    assume "placed ?t"
    moreover have "1 < length (bucketArray ?t)" by (simp add: oneKeyTable_def)
    moreover have "\<lparr>key = 0x10, val = 0x1000\<rparr> \<in> set (bucketArray ?t ! 1)"
      unfolding b by simp
    ultimately have "hashValue ?t (key \<lparr>key = 0x10, val = 0x1000\<rparr>) = 1"
      unfolding placed_def by blast
    with h show False by simp
  qed
  then have n: "\<not> invariant ?t" by (simp add: invariant_def)
  have g: "HashTableGet ?t 0x10 = NULL"
    unfolding HashTableGet_def h by (simp add: oneKeyTable_def)
  have s: "HashTableSetHashFunction oneKeyTable (Some zeroHash) = Inr ?t"
    by (simp add: HashTableSetHashFunction_def)
  from exampleTable_created put_exampleTable oneKeyTable_invariant s b h n g
  show ?thesis by blast
qed

text \<open>
  C3, amended: the representation invariant (a positive bucket count, which is the
  length of the bucket array; an element count equal to the total length of the chains;
  every entry in the bucket of index \<open>hash(key) mod numOfBuckets\<close> under the current
  hash function and bucket count; no two entries with keys that compare equal) holds in
  every state reached by create, put, get, remove, removeAll, rehash and the strategy
  setters, when the key comparison and the hash function are replaced only while the
  table is empty, and every put is made under a key comparison that is symmetric and
  transitive and a hash function that gives keys that compare equal the same hash.
\<close>

theorem invariant_holds_in_reachable_states:
  "reachable t \<Longrightarrow> invariant t"
proof -
  assume "reachable t"
  then have "sound_table t" by (rule reachable_sound_table)
  then show "invariant t" by (simp add: sound_table_def)
qed

theorem invariant_holds_in_reachable_states_witness:
  "reachable twoKeyTable \<and> invariant twoKeyTable \<and> numOfBuckets twoKeyTable = 5 \<and>
   numOfElements twoKeyTable = 2 \<and>
   bucketArray twoKeyTable =
     [[], [\<lparr>key = 0x240, val = 0x2000\<rparr>, \<lparr>key = 0x10, val = 0x1000\<rparr>], [], [], []]"
  using invariant_holds_in_reachable_states [OF reachable_twoKeyTable(2)]
    reachable_twoKeyTable(2)
  by (simp add: twoKeyTable_def exampleTable_def)

subsection \<open>Contains\<close>



subsection \<open>Removing all entries\<close>

lemma releasePair_members:
  "FreePair p \<in> set (releasePair t p)"
  "keyDeallocator t \<noteq> NULL \<Longrightarrow> Call (keyDeallocator t) (key p) \<in> set (releasePair t p)"
  "valueDeallocator t \<noteq> NULL \<Longrightarrow> Call (valueDeallocator t) (val p) \<in> set (releasePair t p)"
  by (simp_all add: releasePair_def)

text \<open>
  C8: for every table (with a positive bucket count, which is the length of its bucket
  array), when the new bucket array is allocated, \<open>removeAll\<close> returns a table whose
  element count is zero, whose full iteration visits nothing and whose bucket count is
  5; it releases the entries in the order of the iteration: for each one, the key and
  the value deallocation functions are called when they are set, on its key and its
  value, and its node is freed; nothing else is called or freed.
\<close>

theorem removeAll_empties_and_releases:
  assumes "0 < numOfBuckets t" and "length (bucketArray t) = nat (numOfBuckets t)"
  shows "\<exists>t' eff. HashTableRemoveAll True t = Inr (t', eff) \<and>
           HashTableSize t' = 0 \<and> fullIteration t' = Some [] \<and>
           HashTableGetNumBuckets t' = 5 \<and>
           eff = concat (map (releasePair t) (entries t)) \<and>
           (\<forall>p\<in>set (entries t). FreePair p \<in> set eff \<and>
              (keyDeallocator t \<noteq> NULL \<longrightarrow> Call (keyDeallocator t) (key p) \<in> set eff) \<and>
              (valueDeallocator t \<noteq> NULL \<longrightarrow> Call (valueDeallocator t) (val p) \<in> set eff))"
proof -
  from HashTableRemoveAll_result [OF assms, of True] obtain t' m
    where r: "HashTableRemoveAll True t = Inr (t', concat (map (releasePair t) (entries t)))"
      "numOfElements t' = 0" "0 < m" "numOfBuckets t' = m" "bucketArray t' = replicate (nat m) []"
      "m = 5"
    by blast
  have len: "length (bucketArray t') = nat (numOfBuckets t')"
    using r(4,5) by simp
  have "entries t' = []" using r(5) by (simp add: entries_def)
  with fullIteration_entries [OF len] have it: "fullIteration t' = Some []" by simp
  have sub: "set (releasePair t p) \<subseteq> set (concat (map (releasePair t) (entries t)))"
    if "p \<in> set (entries t)" for p
    using that by auto
  have "\<forall>p\<in>set (entries t). FreePair p \<in> set (concat (map (releasePair t) (entries t))) \<and>
      (keyDeallocator t \<noteq> NULL \<longrightarrow>
         Call (keyDeallocator t) (key p) \<in> set (concat (map (releasePair t) (entries t)))) \<and>
      (valueDeallocator t \<noteq> NULL \<longrightarrow>
         Call (valueDeallocator t) (val p) \<in> set (concat (map (releasePair t) (entries t))))"
  proof (intro ballI conjI impI)
    fix p assume p: "p \<in> set (entries t)"
    show "FreePair p \<in> set (concat (map (releasePair t) (entries t)))"
      using sub [OF p] releasePair_members(1) [of p t] by blast
    show "Call (keyDeallocator t) (key p) \<in> set (concat (map (releasePair t) (entries t)))"
      if "keyDeallocator t \<noteq> NULL"
      using sub [OF p] releasePair_members(2) [OF that, of p] by blast
    show "Call (valueDeallocator t) (val p) \<in> set (concat (map (releasePair t) (entries t)))"
      if "valueDeallocator t \<noteq> NULL"
      using sub [OF p] releasePair_members(3) [OF that, of p] by blast
  qed
  with r it show ?thesis
    by (simp add: HashTableSize_def HashTableGetNumBuckets_def)
qed

theorem removeAll_empties_and_releases_witness:
  "0 < numOfBuckets (twoKeyTable\<lparr>keyDeallocator := 0x7000\<rparr>) \<and>
   length (bucketArray (twoKeyTable\<lparr>keyDeallocator := 0x7000\<rparr>)) =
     nat (numOfBuckets (twoKeyTable\<lparr>keyDeallocator := 0x7000\<rparr>)) \<and>
   (\<exists>t'. HashTableRemoveAll True (twoKeyTable\<lparr>keyDeallocator := 0x7000\<rparr>) =
      Inr (t', [Call 0x7000 0x240, FreePair \<lparr>key = 0x240, val = 0x2000\<rparr>,
                Call 0x7000 0x10, FreePair \<lparr>key = 0x10, val = 0x1000\<rparr>]) \<and>
      HashTableSize t' = 0 \<and> fullIteration t' = Some [] \<and> HashTableGetNumBuckets t' = 5)"
proof -
  let ?t = "twoKeyTable\<lparr>keyDeallocator := 0x7000\<rparr>"
  have 1: "0 < numOfBuckets ?t" "length (bucketArray ?t) = nat (numOfBuckets ?t)"
    by (simp_all add: twoKeyTable_def exampleTable_def)
  have 2: "concat (map (releasePair ?t) (entries ?t)) =
      [Call 0x7000 0x240, FreePair \<lparr>key = 0x240, val = 0x2000\<rparr>,
       Call 0x7000 0x10, FreePair \<lparr>key = 0x10, val = 0x1000\<rparr>]"
    by (simp add: entries_def releasePair_def twoKeyTable_def exampleTable_def NULL_def)
  from removeAll_empties_and_releases [OF 1] show ?thesis
    unfolding 2 using 1 by blast
qed

subsection \<open>Full iteration\<close>

lemma first_of_empty:
  assumes "length (bucketArray t) = nat (numOfBuckets t)" "entries t = []"
  shows "hashTableGetFirst True t = Inr None"
proof -
  note res = getFirstFrom_result [OF assms(1), of 0]
  have "getFirstFrom t 0 = None"
  proof (cases "getFirstFrom t 0")
    case None
    then show ?thesis .
  next
    case (Some c)
    obtain iter k v where c: "c = (iter, k, v)" by (cases c)
    from res have "remaining t iter = concat (drop 0 (bucketArray t)) \<and>
        bucket iter < length (bucketArray t) \<and>
        (\<exists>p nextPair. pair iter = p # nextPair \<and> k = key p \<and> v = val p)"
      unfolding Some c by simp
    then obtain p nextPair where "remaining t iter = entries t" "pair iter = p # nextPair"
      by (auto simp: entries_def)
    with assms(2) have False by (simp add: remaining_def)
    then show ?thesis ..
  qed
  then show ?thesis by (simp add: hashTableGetFirst_def)
qed

lemma put_links_at_head:
  assumes nn: "k \<noteq> NULL" "v \<noteq> NULL"
    and nf: "findPair (keycmp t) k (bucketArray t ! hashValue t k) = []"
    and r: "HashTablePut True arrayAllocated t k v = Inr (rc, t', eff)"
    and same: "numOfBuckets t' = numOfBuckets t"
  shows "bucketArray t' =
    (bucketArray t)[hashValue t k := \<lparr>key = k, val = v\<rparr> # bucketArray t ! hashValue t k]"
proof -
  define t1 where "t1 = t\<lparr>bucketArray := (bucketArray t)
      [hashValue t k := \<lparr>key = k, val = v\<rparr> # bucketArray t ! hashValue t k],
      numOfElements := numOfElements t + 1\<rparr>"
  from HashTableRehash_cases [of 0 arrayAllocated t1] obtain t2
    where t2: "HashTableRehash arrayAllocated t1 0 = Inr t2"
      "t2 = t1 \<or> (\<exists>n. n \<noteq> numOfBuckets t1 \<and>
          t2 = t1\<lparr>bucketArray := rehashBuckets t1 n, numOfBuckets := n\<rparr>)"
    by auto
  from r nn nf t2(1) have "t' = t1 \<or> t' = t2"
    unfolding HashTablePut_def Let_def t1_def [symmetric]
    by (auto split: if_splits)
  with t2(2) have "t' = t1 \<or> (\<exists>n. n \<noteq> numOfBuckets t1 \<and>
          t' = t1\<lparr>bucketArray := rehashBuckets t1 n, numOfBuckets := n\<rparr>)"
    by blast
  moreover have "numOfBuckets t1 = numOfBuckets t" by (simp add: t1_def)
  ultimately have "t' = t1" using same by auto
  then show ?thesis by (simp add: t1_def)
qed

lemma fullIteration_twoKeyTable7:
  "fullIteration twoKeyTable7 = Some [(0x10, 0x1000), (0x240, 0x2000)]"
proof -
  have "length (bucketArray twoKeyTable7) = nat (numOfBuckets twoKeyTable7)"
    by (simp add: twoKeyTable7_def exampleTable_def)
  from fullIteration_entries [OF this] show ?thesis
    by (simp add: entries_def twoKeyTable7_def)
qed

text \<open>
  C5, as stated, fails on the order within a bucket: a rehash moves the nodes of a chain
  one by one, from the head, each to the head of its new chain, so entries that stay
  together end up in the reverse order. After \<open>create(5)\<close>, \<open>put(0x10, 0x1000)\<close>,
  \<open>put(0x240, 0x2000)\<close> and \<open>rehash(7)\<close>, both entries are in bucket 1 and the iteration
  visits \<open>0x10\<close>, inserted first, before \<open>0x240\<close>, inserted last.
\<close>

theorem iteration_after_rehash_visits_oldest_first:
  "HashTableCreate True True 5 = Inr (Some exampleTable) \<and>
   HashTablePut True True exampleTable 0x10 0x1000 = Inr (0, oneKeyTable, []) \<and>
   HashTablePut True True oneKeyTable 0x240 0x2000 = Inr (0, twoKeyTable, []) \<and>
   HashTableRehash True twoKeyTable 7 = Inr twoKeyTable7 \<and>
   bucketArray twoKeyTable7 ! 1 =
     [\<lparr>key = 0x10, val = 0x1000\<rparr>, \<lparr>key = 0x240, val = 0x2000\<rparr>] \<and>
   fullIteration twoKeyTable7 = Some [(0x10, 0x1000), (0x240, 0x2000)]"
proof -
  have "bucketArray twoKeyTable7 ! 1 =
     [\<lparr>key = 0x10, val = 0x1000\<rparr>, \<lparr>key = 0x240, val = 0x2000\<rparr>]"
    by (simp add: twoKeyTable7_def)
  with exampleTable_created put_exampleTable put_oneKeyTable rehash_twoKeyTable
    fullIteration_twoKeyTable7
  show ?thesis by blast
qed

text \<open>
  C5, amended: for every table that satisfies the representation invariant, a full
  iteration, from \<open>first\<close> by \<open>next\<close> until the absent indicator, returns; it visits the
  buckets in ascending index order and the entries of each bucket in the order of its
  chain, from the head (the visited entries are the concatenation of the chains); it
  visits exactly \<open>size()\<close> entries, no two of them with keys that compare equal; and
  \<open>first\<close> on an empty table returns the absent indicator. A put of a new key that
  leaves the bucket count unchanged links the new entry at the head of its chain and
  leaves every other chain as it is: as long as the table is not rehashed, the entries
  of a bucket are visited most-recently-inserted-first.
\<close>

theorem iteration_visits_chains_in_order:
  assumes "invariant t"
  shows "fullIteration t = Some (map (\<lambda>p. (key p, val p)) (concat (bucketArray t))) \<and>
         int (length (concat (bucketArray t))) = HashTableSize t \<and>
         unique_keys (keycmp t) (concat (bucketArray t)) \<and>
         (HashTableSize t = 0 \<longrightarrow> hashTableGetFirst True t = Inr None) \<and>
         (k \<noteq> NULL \<and> v \<noteq> NULL \<and>
          findPair (keycmp t) k (bucketArray t ! hashValue t k) = [] \<and>
          HashTablePut True arrayAllocated t k v = Inr (rc, t', eff) \<and>
          numOfBuckets t' = numOfBuckets t \<longrightarrow>
            bucketArray t' =
              (bucketArray t)
                [hashValue t k := \<lparr>key = k, val = v\<rparr> # bucketArray t ! hashValue t k])"
proof -
  from assms have len: "length (bucketArray t) = nat (numOfBuckets t)"
    and cnt: "numOfElements t = int (length (entries t))"
    and uniq: "unique_keys (keycmp t) (entries t)"
    by (simp_all add: invariant_def)
  have 1: "fullIteration t = Some (map (\<lambda>p. (key p, val p)) (concat (bucketArray t)))"
    using fullIteration_entries [OF len] by (simp add: entries_def)
  have 2: "int (length (concat (bucketArray t))) = HashTableSize t"
    using cnt by (simp add: entries_def HashTableSize_def)
  have 3: "unique_keys (keycmp t) (concat (bucketArray t))"
    using uniq by (simp add: entries_def)
  have 4: "HashTableSize t = 0 \<longrightarrow> hashTableGetFirst True t = Inr None"
  proof
    assume "HashTableSize t = 0"
    with cnt have "entries t = []" by (simp add: HashTableSize_def)
    with len show "hashTableGetFirst True t = Inr None" by (rule first_of_empty)
  qed
  have 5: "k \<noteq> NULL \<and> v \<noteq> NULL \<and>
          findPair (keycmp t) k (bucketArray t ! hashValue t k) = [] \<and>
          HashTablePut True arrayAllocated t k v = Inr (rc, t', eff) \<and>
          numOfBuckets t' = numOfBuckets t \<longrightarrow>
            bucketArray t' =
              (bucketArray t)
                [hashValue t k := \<lparr>key = k, val = v\<rparr> # bucketArray t ! hashValue t k]"
    using put_links_at_head [of k v t arrayAllocated rc t' eff] by blast
  from 1 2 3 4 5 show ?thesis by blast
qed

theorem iteration_visits_chains_in_order_witness:
  "invariant oneKeyTable \<and> invariant twoKeyTable \<and> invariant exampleTable \<and>
   fullIteration oneKeyTable = Some [(0x10, 0x1000)] \<and> HashTableSize oneKeyTable = 1 \<and>
   HashTablePut True True oneKeyTable 0x240 0x2000 = Inr (0, twoKeyTable, []) \<and>
   bucketArray twoKeyTable =
     [[], [\<lparr>key = 0x240, val = 0x2000\<rparr>, \<lparr>key = 0x10, val = 0x1000\<rparr>], [], [], []] \<and>
   fullIteration twoKeyTable = Some [(0x240, 0x2000), (0x10, 0x1000)] \<and>
   HashTableSize twoKeyTable = 2 \<and>
   HashTableSize exampleTable = 0 \<and> hashTableGetFirst True exampleTable = Inr None"
proof -
  have n: "(0x240 :: ptr) \<noteq> NULL \<and> (0x2000 :: ptr) \<noteq> NULL"
    by (simp add: NULL_def)
  have f: "findPair (keycmp oneKeyTable) 0x240
      (bucketArray oneKeyTable ! hashValue oneKeyTable 0x240) = []"
    by (simp add: oneKeyTable_def exampleTable_def hashValue_def pointerHashFunction_def
        pointercmp_def)
  have b: "numOfBuckets twoKeyTable = numOfBuckets oneKeyTable"
    by (simp add: oneKeyTable_def twoKeyTable_def)
  have h: "hashValue oneKeyTable 0x240 = 1"
    by (simp add: oneKeyTable_def exampleTable_def hashValue_def pointerHashFunction_def)
  have s: "HashTableSize exampleTable = 0" "HashTableSize oneKeyTable = 1"
    "HashTableSize twoKeyTable = 2"
    by (simp_all add: HashTableSize_def exampleTable_def oneKeyTable_def twoKeyTable_def)
  from iteration_visits_chains_in_order
    [OF oneKeyTable_invariant, of "0x240" "0x2000" True 0 twoKeyTable "[]"]
    n f b put_oneKeyTable
  have 1: "fullIteration oneKeyTable = Some [(0x10, 0x1000)]"
    and 2: "bucketArray twoKeyTable =
     [[], [\<lparr>key = 0x240, val = 0x2000\<rparr>, \<lparr>key = 0x10, val = 0x1000\<rparr>], [], [], []]"
    unfolding h by (simp_all add: oneKeyTable_def)
  from iteration_visits_chains_in_order [OF twoKeyTable_invariant, of 0 0 True 0 twoKeyTable "[]"]
  have 3: "fullIteration twoKeyTable = Some [(0x240, 0x2000), (0x10, 0x1000)]"
    by (simp add: twoKeyTable_def)
  from iteration_visits_chains_in_order [OF exampleTable_invariant, of 0 0 True 0 exampleTable "[]"] s(1)
  have 4: "hashTableGetFirst True exampleTable = Inr None"
    by blast
  from 1 2 3 4 s oneKeyTable_invariant twoKeyTable_invariant exampleTable_invariant
    put_oneKeyTable
  show ?thesis by blast
qed

end
